theory Spec2Isabelle
  imports Complex_Main "HOL-Library.Product_Lexorder"
begin

section \<open>Characters and C strings\<close>

text \<open>
  A C string is the list of its bytes before the terminating NUL, so the test \<open>*p\<close> of the
  source is the test \<open>p \<noteq> []\<close> here, and a \<open>NULL\<close> argument of a VCL function is \<open>None\<close>.
  The character classes are those of the "C" locale.
\<close>

definition isspace :: "char \<Rightarrow> bool" where
  "isspace c = (let n = (of_char c :: nat) in n = 32 \<or> (9 \<le> n \<and> n \<le> 13))"

definition isdigit :: "char \<Rightarrow> bool" where
  "isdigit c = (let n = (of_char c :: nat) in 48 \<le> n \<and> n \<le> 57)"

definition isxdigit :: "char \<Rightarrow> bool" where
  "isxdigit c = (let n = (of_char c :: nat) in
     (48 \<le> n \<and> n \<le> 57) \<or> (65 \<le> n \<and> n \<le> 70) \<or> (97 \<le> n \<and> n \<le> 102))"

definition isalpha :: "char \<Rightarrow> bool" where
  "isalpha c = (let n = (of_char c :: nat) in (65 \<le> n \<and> n \<le> 90) \<or> (97 \<le> n \<and> n \<le> 122))"

definition tolower :: "char \<Rightarrow> char" where
  "tolower c = (let n = (of_char c :: nat) in if 65 \<le> n \<and> n \<le> 90 then char_of (n + 32) else c)"

definition skip_ws :: "string \<Rightarrow> string" where
  "skip_ws p = dropWhile isspace p"

text \<open>The backwards scan \<open>while (end > start && isspace(*(end - 1))) end--\<close>.\<close>

definition trim_trailing :: "string \<Rightarrow> string" where
  "trim_trailing s = rev (dropWhile isspace (rev s))"

text \<open>\<open>strchr\<close> as the offset of the first occurrence, \<open>None\<close> for the null pointer.\<close>

definition strchr :: "string \<Rightarrow> char \<Rightarrow> nat option" where
  "strchr s c = (if c \<in> set s then Some (length (takeWhile (\<lambda>x. x \<noteq> c) s)) else None)"

text \<open>\<open>strcmp\<close> compares bytes as unsigned values; only the sign of its result is used.\<close>

fun strcmp :: "string \<Rightarrow> string \<Rightarrow> int" where
  "strcmp [] [] = 0"
| "strcmp [] (b # bs) = - 1"
| "strcmp (a # as) [] = 1"
| "strcmp (a # as) (b # bs) =
     (if a = b then strcmp as bs
      else if (of_char a :: nat) < of_char b then - 1 else 1)"

section \<open>The type double\<close>

text \<open>
  The values of a binary64 \<open>double\<close>: a finite number (\<open>Num 0\<close> is \<open>+0.0\<close>), negative zero,
  the two infinities and not-a-number. Only \<open>strtod\<close> rounds; comparison, clamping and
  formatting are exact on the values it returns.
\<close>

datatype double = Num rat | NegZero | PosInf | NegInf | NaN

fun dord :: "double \<Rightarrow> int \<times> rat" where
  "dord NegInf = (- 1, 0)"
| "dord (Num r) = (0, r)"
| "dord NegZero = (0, 0)"
| "dord PosInf = (1, 0)"
| "dord NaN = (2, 0)"

text \<open>The C comparisons \<open>a < b\<close> and \<open>a >= b\<close>: false as soon as an operand is NaN.\<close>

definition dless :: "double \<Rightarrow> double \<Rightarrow> bool" where
  "dless a b = (a \<noteq> NaN \<and> b \<noteq> NaN \<and> dord a < dord b)"

definition dge :: "double \<Rightarrow> double \<Rightarrow> bool" where
  "dge a b = (a \<noteq> NaN \<and> b \<noteq> NaN \<and> dord b \<le> dord a)"

fun dneg :: "double \<Rightarrow> double" where
  "dneg (Num r) = (if r = 0 then NegZero else Num (- r))"
| "dneg NegZero = Num 0"
| "dneg PosInf = NegInf"
| "dneg NegInf = PosInf"
| "dneg NaN = NaN"

text \<open>The position of the leading bit: \<open>2 ^ ilog2 n \<le> n < 2 ^ (ilog2 n + 1)\<close> for \<open>0 < n\<close>.\<close>

function ilog2 :: "int \<Rightarrow> int" where
  "ilog2 n = (if n < 2 then 0 else 1 + ilog2 (n div 2))"
  by pat_completeness auto
termination
  by (relation "measure nat") auto

declare ilog2.simps [simp del]

text \<open>The integer nearest to \<open>num / den\<close>, a tie going to the even one (\<open>0 < den\<close>).\<close>

definition round_half_even :: "int \<Rightarrow> int \<Rightarrow> int" where
  "round_half_even num den =
     (let q = num div den; r = num mod den
      in if 2 * r < den then q else if den < 2 * r then q + 1
         else if even q then q else q + 1)"

text \<open>
  \<open>binary64 a b\<close> is the double nearest to the fraction \<open>a / b\<close> (\<open>0 \<le> a\<close>, \<open>0 < b\<close>),
  ties to even: 53 significant bits, gradual underflow below \<open>2^-1022\<close>, and infinity
  from \<open>2^1024\<close> on. \<open>e\<close> is the exponent of the leading bit of \<open>a / b\<close> and \<open>k\<close> that
  of the last place kept.
\<close>

definition binary64 :: "int \<Rightarrow> int \<Rightarrow> double" where
  "binary64 a b =
     (if a \<le> 0 then Num 0
      else let e0 = ilog2 a - ilog2 b;
               e = (if (if 0 \<le> e0 then b * 2 ^ nat e0 \<le> a else b \<le> a * 2 ^ nat (- e0))
                    then e0 else e0 - 1);
               k = max e (- 1022) - 52;
               n = (if 0 \<le> k then round_half_even a (b * 2 ^ nat k)
                    else round_half_even (a * 2 ^ nat (- k)) b)
           in if 0 \<le> k then
                (if (2 :: int) ^ 1024 \<le> n * 2 ^ nat k then PosInf else Num (of_int (n * 2 ^ nat k)))
              else Num (of_int n / of_int (2 ^ nat (- k))))"

section \<open>The C library: strtod and printf\<close>

text \<open>
  \<open>strtod\<close> and \<open>printf\<close> belong to the C library, not to the module; they are rendered
  here after the C standard, with the correct rounding that glibc performs.

  \<open>strtod\<close> after ISO C 7.22.1.3: optional white space, an optional sign, then
  \<open>inf\<close>, \<open>infinity\<close>, \<open>nan\<close>, \<open>nan(n-char-sequence)\<close> (letters in either case), a hexadecimal
  or a decimal floating constant. The result is the value, correctly rounded, and the
  end pointer; when nothing can be converted the value is \<open>+0.0\<close> and the end pointer is
  the argument itself.
\<close>

definition digit_val :: "char \<Rightarrow> int" where
  "digit_val c = (let n = (of_char c :: int) in
     if n \<le> 57 then n - 48 else if n \<le> 70 then n - 55 else n - 87)"

definition digits_val :: "int \<Rightarrow> string \<Rightarrow> int" where
  "digits_val base ds = foldl (\<lambda>a c. a * base + digit_val c) 0 ds"

text \<open>The number \<open>m * base ^ e\<close> as a double.\<close>

definition scale :: "int \<Rightarrow> int \<Rightarrow> int \<Rightarrow> double" where
  "scale base m e =
     (if 0 \<le> e then binary64 (m * base ^ nat e) 1 else binary64 m (base ^ nat (- e)))"

text \<open>
  The exponent part: the letter \<open>mark\<close> (\<open>e\<close> or \<open>p\<close>), an optional sign and at least
  one digit; without a digit nothing of it is consumed.
\<close>

definition strtod_exponent :: "char \<Rightarrow> string \<Rightarrow> int \<times> string" where
  "strtod_exponent mark p =
     (case p of
        [] \<Rightarrow> (0, p)
      | c # r \<Rightarrow>
          if tolower c = mark then
            (let (neg, r1) = (case r of
                                [] \<Rightarrow> (False, r)
                              | s # t \<Rightarrow> if s = CHR ''-'' then (True, t)
                                         else if s = CHR ''+'' then (False, t) else (False, r));
                 ds = takeWhile isdigit r1
             in if ds = [] then (0, p)
                else ((if neg then - digits_val 10 ds else digits_val 10 ds),
                      dropWhile isdigit r1))
          else (0, p))"

text \<open>
  Digits with an optional radix point, then the optional exponent; \<open>None\<close> when there is
  no digit at all. \<open>per_digit\<close> is the exponent weight of one fraction digit (1 for a
  decimal constant, 4 for a hexadecimal one, whose exponent is binary).
\<close>

definition strtod_digits ::
    "(char \<Rightarrow> bool) \<Rightarrow> int \<Rightarrow> int \<Rightarrow> char \<Rightarrow> int \<Rightarrow> string \<Rightarrow> (double \<times> string) option" where
  "strtod_digits isdig base ebase mark per_digit p =
     (let ip = takeWhile isdig p;
          p1 = dropWhile isdig p;
          (fp, p2) = (case p1 of
                        [] \<Rightarrow> ([], p1)
                      | c # r \<Rightarrow> if c = CHR ''.'' then (takeWhile isdig r, dropWhile isdig r)
                                 else ([], p1))
      in if ip = [] \<and> fp = [] then None
         else (let (ex, p3) = strtod_exponent mark p2;
                   m = digits_val base (ip @ fp)
               in Some (scale ebase m (ex - per_digit * int (length fp)), p3)))"

definition strtod_decimal :: "string \<Rightarrow> (double \<times> string) option" where
  "strtod_decimal p = strtod_digits isdigit 10 10 (CHR ''e'') 1 p"

definition strtod_hex :: "string \<Rightarrow> (double \<times> string) option" where
  "strtod_hex p = strtod_digits isxdigit 16 2 (CHR ''p'') 4 p"

definition strtod_number :: "string \<Rightarrow> (double \<times> string) option" where
  "strtod_number p =
     (case p of
        z # x # r \<Rightarrow>
          if z = CHR ''0'' \<and> tolower x = CHR ''x'' then
            (case strtod_hex r of Some res \<Rightarrow> Some res | None \<Rightarrow> strtod_decimal p)
          else strtod_decimal p
      | _ \<Rightarrow> strtod_decimal p)"

definition ci_prefix :: "string \<Rightarrow> string \<Rightarrow> bool" where
  "ci_prefix w p = (length w \<le> length p \<and> map tolower (take (length w) p) = w)"

text \<open>After \<open>nan\<close>: a parenthesised run of digits, letters and underscores, or nothing.\<close>

definition nan_tail :: "string \<Rightarrow> string" where
  "nan_tail r =
     (case r of
        [] \<Rightarrow> r
      | c # t \<Rightarrow>
          if c = CHR ''('' then
            (case dropWhile (\<lambda>x. isdigit x \<or> isalpha x \<or> x = CHR ''_'') t of
               [] \<Rightarrow> r
             | d # u \<Rightarrow> if d = CHR '')'' then u else r)
          else r)"

definition strtod_special :: "string \<Rightarrow> (double \<times> string) option" where
  "strtod_special p =
     (if ci_prefix ''infinity'' p then Some (PosInf, drop 8 p)
      else if ci_prefix ''inf'' p then Some (PosInf, drop 3 p)
      else if ci_prefix ''nan'' p then Some (NaN, nan_tail (drop 3 p))
      else None)"

text \<open>The conversion proper; \<open>None\<close> when no conversion can be performed.\<close>

definition strtod_conv :: "string \<Rightarrow> (double \<times> string) option" where
  "strtod_conv nptr =
     (let p = skip_ws nptr;
          (neg, p1) = (case p of
                         [] \<Rightarrow> (False, p)
                       | s # t \<Rightarrow> if s = CHR ''-'' then (True, t)
                                  else if s = CHR ''+'' then (False, t) else (False, p))
      in case (case strtod_special p1 of Some r \<Rightarrow> Some r | None \<Rightarrow> strtod_number p1) of
           None \<Rightarrow> None
         | Some (v, endp) \<Rightarrow> Some (if neg then dneg v else v, endp))"

definition strtod :: "string \<Rightarrow> double \<times> string" where
  "strtod nptr = (case strtod_conv nptr of None \<Rightarrow> (Num 0, nptr) | Some r \<Rightarrow> r)"

text \<open>
  \<open>printf("%.1f", x)\<close>: the sign, the integral digits, a point and one fraction digit,
  rounded to nearest with ties to even on the exact value.
\<close>

definition digit_char :: "int \<Rightarrow> char" where
  "digit_char n = char_of (48 + n)"

function show_int :: "int \<Rightarrow> string" where
  "show_int n = (if n < 10 then [digit_char n] else show_int (n div 10) @ [digit_char (n mod 10)])"
  by pat_completeness auto
termination
  by (relation "measure nat") auto

declare show_int.simps [simp del]

definition fixed_1 :: "rat \<Rightarrow> string" where
  "fixed_1 r = (let (a, b) = quotient_of r; n = round_half_even (a * 10) b
                in show_int (n div 10) @ ''.'' @ [digit_char (n mod 10)])"

fun printf_1f :: "double \<Rightarrow> string" where
  "printf_1f (Num r) = (if r < 0 then ''-'' @ fixed_1 (- r) else fixed_1 r)"
| "printf_1f NegZero = ''-0.0''"
| "printf_1f PosInf = ''inf''"
| "printf_1f NegInf = ''-inf''"
| "printf_1f NaN = ''nan''"

section \<open>Parsing the Accept header\<close>

definition MAX_MEDIA_TYPES :: nat where
  "MAX_MEDIA_TYPES = 64"

record media_type =
  type :: string
  quality :: double

text \<open>
  The state is the array \<open>types\<close> up to \<open>count\<close>: a list, whose length is \<open>count\<close>.
  Allocation is taken to succeed, as the source asserts it does (\<open>AN\<close>), and \<open>WS_Copy\<close>
  returns its argument.
\<close>

type_synonym acceptnorm_state = "media_type list"

text \<open>The two clamping assignments after \<open>strtod\<close>.\<close>

definition clamp_quality :: "double \<Rightarrow> double" where
  "clamp_quality q0 =
     (let q1 = (if dless q0 (Num 0) then Num 0 else q0)
      in if dless (Num 1) q1 then Num 1 else q1)"

definition is_sep :: "char \<Rightarrow> bool" where
  "is_sep c = (c = CHR '';'' \<or> c = CHR '','')"

text \<open>
  One round of the parameter loop of \<open>parse_media_type\<close>, entered at the character after
  the \<open>;\<close>: it returns the new position and the new value of \<open>quality\<close>.
\<close>

definition parse_param :: "string \<Rightarrow> double \<Rightarrow> string \<times> double" where
  "parse_param r qual =
     (let param_start = skip_ws r;
          name = takeWhile (\<lambda>c. c \<noteq> CHR ''='' \<and> \<not> is_sep c) param_start;
          p = dropWhile (\<lambda>c. c \<noteq> CHR ''='' \<and> \<not> is_sep c) param_start
      in case p of
           [] \<Rightarrow> (p, qual)
         | c # v \<Rightarrow>
             if c = CHR ''='' \<and> length name = 1 \<and> map tolower name = ''q'' then
               (let (q, p') = strtod (skip_ws v) in (p', clamp_quality q))
             else if c = CHR ''='' then (dropWhile (\<lambda>c. \<not> is_sep c) v, qual)
             else (p, qual))"

lemma length_nan_tail: "length (nan_tail r) \<le> length r"
proof -
  have "length (dropWhile P t) \<le> length t" for P and t :: string
    by (rule length_dropWhile_le)
  then have "dropWhile P t = d # u \<Longrightarrow> length u \<le> length t" for P d u and t :: string
    by (metis length_Cons Suc_leD)
  then show ?thesis
    by (fastforce simp: nan_tail_def split: list.splits if_splits)
qed

lemma length_strtod_special:
  "strtod_special p = Some (v, e) \<Longrightarrow> length e \<le> length p"
  using length_nan_tail [of "drop 3 p"]
  by (auto simp: strtod_special_def split: if_splits)

lemma length_strtod_exponent: "length (snd (strtod_exponent mark p)) \<le> length p"
proof -
  have "length (dropWhile isdigit t) \<le> length t" for t
    by (rule length_dropWhile_le)
  then show ?thesis
    by (auto simp: strtod_exponent_def Let_def le_SucI split: list.splits if_splits)
qed

lemma length_strtod_digits:
  assumes "strtod_digits isdig base ebase mark k p = Some (v, e)"
  shows "length e \<le> length p"
proof -
  define p1 where "p1 = dropWhile isdig p"
  define fp2 where "fp2 = (case p1 of [] \<Rightarrow> ([], p1)
     | c # r \<Rightarrow> if c = CHR ''.'' then (takeWhile isdig r, dropWhile isdig r) else ([], p1))"
  have 1: "length p1 \<le> length p"
    unfolding p1_def by (rule length_dropWhile_le)
  have "length (dropWhile isdig r) \<le> length r" for r
    by (rule length_dropWhile_le)
  then have 2: "length (snd fp2) \<le> length p1"
    unfolding fp2_def by (auto simp: le_SucI split: list.splits)
  have "e = snd (strtod_exponent mark (snd fp2))"
    using assms unfolding strtod_digits_def Let_def p1_def [symmetric] fp2_def [symmetric]
    by (auto split: if_splits prod.splits)
  then show ?thesis
    using length_strtod_exponent [of mark "snd fp2"] 1 2 by simp
qed

lemma length_strtod_number:
  assumes "strtod_number p = Some (v, e)"
  shows "length e \<le> length p"
proof -
  have "strtod_decimal p = Some (v, e) \<Longrightarrow> ?thesis"
    unfolding strtod_decimal_def by (rule length_strtod_digits)
  moreover have "strtod_hex r = Some (v, e) \<Longrightarrow> length e \<le> length r" for r
    unfolding strtod_hex_def by (rule length_strtod_digits)
  then have "p = z # x # r \<Longrightarrow> strtod_hex r = Some (v, e) \<Longrightarrow> ?thesis" for z x r
    by fastforce
  ultimately show ?thesis
    using assms unfolding strtod_number_def
    by (auto split: list.splits if_splits option.splits)
qed

lemma length_strtod_conv:
  assumes "strtod_conv s = Some (v, e)"
  shows "length e \<le> length s"
proof -
  define p where "p = skip_ws s"
  define p1 where "p1 = (case p of [] \<Rightarrow> p
     | c # t \<Rightarrow> if c = CHR ''-'' then t else if c = CHR ''+'' then t else p)"
  have 1: "length p \<le> length s"
    unfolding p_def skip_ws_def by (rule length_dropWhile_le)
  have 2: "length p1 \<le> length p"
    unfolding p1_def by (auto split: list.splits)
  have "(\<exists>w. strtod_special p1 = Some (w, e)) \<or> (\<exists>w. strtod_number p1 = Some (w, e))"
    using assms unfolding strtod_conv_def p_def p1_def
    by (auto simp: Let_def split: list.splits if_splits option.splits prod.splits)
  then have "length e \<le> length p1"
    using length_strtod_special length_strtod_number by blast
  then show ?thesis
    using 1 2 by simp
qed

lemma length_strtod: "length (snd (strtod s)) \<le> length s"
  using length_strtod_conv [of s]
  by (auto simp: strtod_def split: option.splits)

lemma length_parse_param: "length (fst (parse_param r q)) \<le> length r"
proof -
  define ps where "ps = skip_ws r"
  define p where "p = dropWhile (\<lambda>c. c \<noteq> CHR ''='' \<and> \<not> is_sep c) ps"
  have 1: "length ps \<le> length r"
    unfolding ps_def skip_ws_def by (rule length_dropWhile_le)
  have 2: "length p \<le> length ps"
    unfolding p_def by (rule length_dropWhile_le)
  have 3: "length (snd (strtod (skip_ws v))) \<le> length v" for v
    using length_strtod [of "skip_ws v"] length_dropWhile_le [of isspace v]
    by (simp add: skip_ws_def)
  have 4: "length (dropWhile (\<lambda>c. \<not> is_sep c) v) \<le> length v" for v
    by (rule length_dropWhile_le)
  have "length (fst (parse_param r q)) \<le> length p"
  proof (cases p)
    case Nil
    then show ?thesis
      unfolding parse_param_def Let_def ps_def [symmetric] p_def [symmetric] by simp
  next
    case (Cons c v)
    then show ?thesis
      unfolding parse_param_def Let_def ps_def [symmetric] p_def [symmetric]
      using 3 [of v] 4 [of v] by (auto simp: le_SucI split: prod.splits)
  qed
  then show ?thesis
    using 1 2 by simp
qed

text \<open>The loop \<open>while (*p == ';')\<close>.\<close>

function parse_params :: "string \<Rightarrow> double \<Rightarrow> string \<times> double" where
  "parse_params p qual =
     (case p of
        [] \<Rightarrow> (p, qual)
      | c # r \<Rightarrow>
          if c = CHR '';'' then
            (case parse_param r qual of (p', qual') \<Rightarrow> parse_params p' qual')
          else (p, qual))"
  by pat_completeness auto
termination
  apply (relation "measure (\<lambda>(p, q). length p)")
   apply simp
  subgoal premises prems for p qual c r x1 x2
    using length_parse_param [of r qual] prems
    by (metis fst_conv in_measure length_Cons less_Suc_eq_le case_prod_conv)
  done

declare parse_params.simps [simp del]

text \<open>
  \<open>parse_media_type\<close> returns the position after the entry together with the two output
  parameters, or \<open>None\<close> for its \<open>NULL\<close>.
\<close>

definition parse_media_type :: "string \<Rightarrow> (string \<times> string \<times> double) option" where
  "parse_media_type p0 =
     (let p = skip_ws p0
      in if p = [] then None
         else (let p1 = dropWhile (\<lambda>c. \<not> is_sep c) p;
                   ty = trim_trailing (takeWhile (\<lambda>c. \<not> is_sep c) p)
               in if ty = [] then None
                  else (let (p2, qual) = parse_params p1 (Num 1);
                            p3 = skip_ws p2;
                            p4 = (case p3 of [] \<Rightarrow> p3
                                  | c # r \<Rightarrow> if c = CHR '','' then r else p3)
                        in Some (p4, map tolower ty, qual))))"

text \<open>The loop of \<open>parse_accept_header\<close>, on the state and the position.\<close>

function parse_entries :: "acceptnorm_state \<Rightarrow> string \<Rightarrow> acceptnorm_state" where
  "parse_entries st p =
     (if p \<noteq> [] \<and> length st < MAX_MEDIA_TYPES then
        (case parse_media_type p of
           None \<Rightarrow> st
         | Some (p', ty, q) \<Rightarrow> parse_entries (st @ [\<lparr>type = ty, quality = q\<rparr>]) p')
      else st)"
  by pat_completeness auto
termination
  by (relation "measure (\<lambda>(st, p). MAX_MEDIA_TYPES - length st)") auto

declare parse_entries.simps [simp del]

definition parse_accept_header :: "string option \<Rightarrow> acceptnorm_state" where
  "parse_accept_header header =
     (case header of
        None \<Rightarrow> []
      | Some h \<Rightarrow> if h = [] then [] else parse_entries [] h)"

section \<open>Sorting, matching and quality lookup\<close>

definition media_type_cmp :: "media_type \<Rightarrow> media_type \<Rightarrow> int" where
  "media_type_cmp ma mb =
     (if dless (quality mb) (quality ma) then - 1
      else if dless (quality ma) (quality mb) then 1
      else strcmp (type ma) (type mb))"

text \<open>
  \<open>qsort\<close> belongs to the C library; it is rendered as glibc implements it, a merge sort:
  the array is halved (the first half has \<open>n / 2\<close> elements), both halves are sorted, and
  they are merged by taking the element of the first half whenever the comparison
  function returns a value \<open><= 0\<close>. The definition follows that algorithm step by step, so
  it gives the order of glibc also where the comparison function is inconsistent, as
  \<open>media_type_cmp\<close> is on a NaN quality. ISO C leaves the order of elements that compare
  equal open; the merge keeps them in their order.
\<close>

fun qsort_merge :: "('a \<Rightarrow> 'a \<Rightarrow> int) \<Rightarrow> 'a list \<Rightarrow> 'a list \<Rightarrow> 'a list" where
  "qsort_merge cmp [] ys = ys"
| "qsort_merge cmp (x # xs) [] = x # xs"
| "qsort_merge cmp (x # xs) (y # ys) =
     (if cmp x y \<le> 0 then x # qsort_merge cmp xs (y # ys)
      else y # qsort_merge cmp (x # xs) ys)"

function qsort :: "('a \<Rightarrow> 'a \<Rightarrow> int) \<Rightarrow> 'a list \<Rightarrow> 'a list" where
  "qsort cmp xs =
     (if length xs \<le> 1 then xs
      else qsort_merge cmp (qsort cmp (take (length xs div 2) xs))
                           (qsort cmp (drop (length xs div 2) xs)))"
  by pat_completeness auto
termination
  by (relation "measure (\<lambda>(cmp, xs). length xs)") auto

declare qsort.simps [simp del]

definition sort_media_types :: "acceptnorm_state \<Rightarrow> acceptnorm_state" where
  "sort_media_types st = (if 1 < length st then qsort media_type_cmp st else st)"

definition media_type_match :: "string \<Rightarrow> string \<Rightarrow> bool" where
  "media_type_match pattern ty =
     (if pattern = ''*/*'' then True
      else case strchr pattern (CHR ''/'') of
             None \<Rightarrow> pattern = ty
           | Some p_type_len \<Rightarrow>
               (case strchr ty (CHR ''/'') of
                  None \<Rightarrow> pattern = ty
                | Some t_type_len \<Rightarrow>
                    if drop (p_type_len + 1) pattern = ''*'' then
                      p_type_len = t_type_len \<and> take p_type_len pattern = take p_type_len ty
                    else pattern = ty))"

text \<open>The buffer \<open>type_prefix[256]\<close> after the block that fills it.\<close>

definition type_prefix :: "string \<Rightarrow> string" where
  "type_prefix ty =
     (case strchr ty (CHR ''/'') of
        None \<Rightarrow> []
      | Some len \<Rightarrow> if len < 256 - 2 then take len ty @ ''/*'' else [])"

text \<open>
  The loop of \<open>get_quality_for_type\<close> over the entries still to visit, with the two
  running values, and the three returns after it.
\<close>

fun quality_scan :: "string \<Rightarrow> string \<Rightarrow> media_type list \<Rightarrow> double \<Rightarrow> double \<Rightarrow> double" where
  "quality_scan ty pre [] wildcard_quality type_wildcard_quality =
     (if dge type_wildcard_quality (Num 0) then type_wildcard_quality
      else if dge wildcard_quality (Num 0) then wildcard_quality
      else Num 0)"
| "quality_scan ty pre (e # es) wildcard_quality type_wildcard_quality =
     (if type e = ty then quality e
      else if type e = ''*/*'' then quality_scan ty pre es (quality e) type_wildcard_quality
      else if pre \<noteq> [] \<and> type e = pre then quality_scan ty pre es wildcard_quality (quality e)
      else quality_scan ty pre es wildcard_quality type_wildcard_quality)"

definition get_quality_for_type :: "acceptnorm_state \<Rightarrow> string \<Rightarrow> double" where
  "get_quality_for_type st ty = quality_scan ty (type_prefix ty) st (Num (- 1)) (Num (- 1))"

section \<open>Building the result and the preferred list\<close>

fun build_entries :: "nat \<Rightarrow> media_type list \<Rightarrow> string" where
  "build_entries i [] = []"
| "build_entries i (e # es) =
     (if 0 < i then '', '' else []) @ type e
     @ (if dless (quality e) (Num 1) then '';q='' @ printf_1f (quality e) else [])
     @ build_entries (Suc i) es"

definition build_accept_string :: "acceptnorm_state \<Rightarrow> string" where
  "build_accept_string st = (if length st = 0 then [] else build_entries 0 st)"

text \<open>The loop of \<open>parse_preferred_types\<close>, on the types collected and the position.\<close>

function parse_preferred_loop :: "string list \<Rightarrow> string \<Rightarrow> nat \<Rightarrow> string list" where
  "parse_preferred_loop types p max_types =
     (if p \<noteq> [] \<and> length types < max_types then
        (let p1 = skip_ws p
         in if p1 = [] then types
            else (let p2 = dropWhile (\<lambda>c. c \<noteq> CHR '','') p1;
                      tok = trim_trailing (takeWhile (\<lambda>c. c \<noteq> CHR '','') p1);
                      types' = (if tok \<noteq> [] then types @ [map tolower tok] else types);
                      p3 = (case p2 of [] \<Rightarrow> p2 | c # r \<Rightarrow> r)
                  in parse_preferred_loop types' p3 max_types))
      else types)"
  by pat_completeness auto
termination
proof (relation "measure (\<lambda>(types, p, max_types). length p)")
  show "wf (measure (\<lambda>(types, p, max_types). length p))"
    by simp
next
  fix types :: "string list" and p :: string and max_types :: nat
  fix p1 p2 tok types' p3
  assume a: "p1 = skip_ws p" "p1 \<noteq> []" "p2 = dropWhile (\<lambda>c. c \<noteq> CHR '','') p1"
    "p3 = (case p2 of [] \<Rightarrow> p2 | c # r \<Rightarrow> r)"
  have 1: "length p1 \<le> length p"
    unfolding a(1) skip_ws_def by (rule length_dropWhile_le)
  have "length p3 < length p1"
  proof (cases p2)
    case Nil
    then have "p3 = []"
      by (simp add: a(4))
    then show ?thesis
      using a(2) by simp
  next
    case (Cons c r)
    have "length p2 \<le> length p1"
      unfolding a(3) by (rule length_dropWhile_le)
    moreover have "p3 = r"
      by (simp add: a(4) Cons)
    ultimately show ?thesis
      using Cons by simp
  qed
  then show "((types', p3, max_types), (types, p, max_types))
      \<in> measure (\<lambda>(types, p, max_types). length p)"
    using 1 by simp
qed

declare parse_preferred_loop.simps [simp del]

definition parse_preferred_types :: "string option \<Rightarrow> nat \<Rightarrow> string list" where
  "parse_preferred_types preferred max_types =
     (case preferred of
        None \<Rightarrow> []
      | Some s \<Rightarrow> if s = [] then [] else parse_preferred_loop [] s max_types)"

section \<open>The VMOD functions\<close>

text \<open>The test \<open>s == NULL || *s == '\0'\<close>.\<close>

definition absent :: "string option \<Rightarrow> bool" where
  "absent s = (case s of None \<Rightarrow> True | Some h \<Rightarrow> h = [])"

definition vmod_canonicalize :: "string option \<Rightarrow> string" where
  "vmod_canonicalize accept_header =
     (if absent accept_header then []
      else build_accept_string (sort_media_types (parse_accept_header accept_header)))"

text \<open>
  The inner loop of \<open>vmod_filter\<close> and \<open>vmod_best_match\<close>: the greatest quality among the
  header entries that match the preferred type, starting from the value given.
\<close>

fun match_quality :: "media_type list \<Rightarrow> string \<Rightarrow> double \<Rightarrow> double" where
  "match_quality [] pref q = q"
| "match_quality (e # es) pref q =
     match_quality es pref
       (if media_type_match (type e) pref \<and> dless q (quality e) then quality e else q)"

fun filter_loop :: "acceptnorm_state \<Rightarrow> string list \<Rightarrow> acceptnorm_state \<Rightarrow> acceptnorm_state" where
  "filter_loop st [] filtered = filtered"
| "filter_loop st (pt # pts) filtered =
     (if length filtered < MAX_MEDIA_TYPES then
        (let q = match_quality st pt (Num 0)
         in filter_loop st pts
              (if dless (Num 0) q then filtered @ [\<lparr>type = pt, quality = q\<rparr>] else filtered))
      else filtered)"

definition vmod_filter :: "string option \<Rightarrow> string option \<Rightarrow> string" where
  "vmod_filter accept_header preferred =
     (if absent preferred then vmod_canonicalize accept_header
      else if absent accept_header then
        (case parse_preferred_types preferred MAX_MEDIA_TYPES of
           [] \<Rightarrow> []
         | first # _ \<Rightarrow> first)
      else (let st = parse_accept_header accept_header;
                pref_types = parse_preferred_types preferred MAX_MEDIA_TYPES;
                filtered = filter_loop st pref_types [];
                filtered' = (case pref_types of
                               [] \<Rightarrow> filtered
                             | first # _ \<Rightarrow>
                                 if length filtered = 0
                                 then [\<lparr>type = first, quality = Num 1\<rparr>] else filtered)
            in build_accept_string (sort_media_types filtered')))"

text \<open>The outer loop of \<open>vmod_best_match\<close>; \<open>best_type\<close> is \<open>None\<close> for \<open>NULL\<close>.\<close>

fun best_loop ::
    "acceptnorm_state \<Rightarrow> string list \<Rightarrow> string option \<Rightarrow> double \<Rightarrow> string option" where
  "best_loop st [] best_type best_quality = best_type"
| "best_loop st (pt # pts) best_type best_quality =
     (let q = match_quality st pt (Num 0)
      in if dless best_quality q then best_loop st pts (Some pt) q
         else best_loop st pts best_type best_quality)"

definition vmod_best_match :: "string option \<Rightarrow> string option \<Rightarrow> string" where
  "vmod_best_match accept_header preferred =
     (case parse_preferred_types preferred MAX_MEDIA_TYPES of
        [] \<Rightarrow> []
      | first # rest \<Rightarrow>
          if absent accept_header then first
          else (case best_loop (parse_accept_header accept_header) (first # rest)
                       None (Num (- 1)) of
                  None \<Rightarrow> first
                | Some best_type \<Rightarrow> best_type))"

text \<open>The two loops of \<open>vmod_prefer\<close>, with their return from the inner one.\<close>

fun prefer_inner :: "media_type list \<Rightarrow> string \<Rightarrow> bool" where
  "prefer_inner [] pref = False"
| "prefer_inner (e # es) pref =
     (if media_type_match (type e) pref \<and> dless (Num 0) (quality e) then True
      else prefer_inner es pref)"

fun prefer_loop :: "acceptnorm_state \<Rightarrow> string list \<Rightarrow> string option" where
  "prefer_loop st [] = None"
| "prefer_loop st (pt # pts) = (if prefer_inner st pt then Some pt else prefer_loop st pts)"

definition vmod_prefer :: "string option \<Rightarrow> string option \<Rightarrow> string" where
  "vmod_prefer accept_header preferred =
     (case accept_header of
        None \<Rightarrow> []
      | Some h \<Rightarrow>
          if h = [] then []
          else (case parse_preferred_types preferred MAX_MEDIA_TYPES of
                  [] \<Rightarrow> h
                | first # rest \<Rightarrow>
                    (case prefer_loop (parse_accept_header accept_header) (first # rest) of
                       Some pt \<Rightarrow> pt
                     | None \<Rightarrow> h)))"

definition vmod_quality :: "string option \<Rightarrow> string option \<Rightarrow> double" where
  "vmod_quality accept_header media_type =
     (if absent accept_header then Num 0
      else case media_type of
             None \<Rightarrow> Num 0
           | Some m \<Rightarrow>
               if m = [] then Num 0
               else get_quality_for_type (parse_accept_header accept_header) (map tolower m))"

definition vmod_accepts :: "string option \<Rightarrow> string option \<Rightarrow> bool" where
  "vmod_accepts accept_header media_type = dless (Num 0) (vmod_quality accept_header media_type)"

section \<open>Notions used in the statements\<close>

text \<open>A quality is within the unit interval when both comparisons with the bounds hold.\<close>

definition in_unit :: "double \<Rightarrow> bool" where
  "in_unit q = (dge q (Num 0) \<and> dge (Num 1) q)"

text \<open>
  The entries that the loop of \<open>parse_accept_header\<close> appends when \<open>n\<close> places are left.
\<close>

fun parse_upto :: "nat \<Rightarrow> string \<Rightarrow> media_type list" where
  "parse_upto 0 p = []"
| "parse_upto (Suc n) p =
     (if p = [] then []
      else case parse_media_type p of
             None \<Rightarrow> []
           | Some (p', ty, q) \<Rightarrow> \<lparr>type = ty, quality = q\<rparr> # parse_upto n p')"

text \<open>The three returns at the end of \<open>get_quality_for_type\<close>, on the two running values.\<close>

definition resolve_wildcards :: "double \<Rightarrow> double \<Rightarrow> double" where
  "resolve_wildcards type_wildcard_quality wildcard_quality =
     (if dge type_wildcard_quality (Num 0) then type_wildcard_quality
      else if dge wildcard_quality (Num 0) then wildcard_quality
      else Num 0)"

text \<open>The quality of the last entry that satisfies \<open>P\<close>, or \<open>d\<close> when there is none.\<close>

definition last_quality :: "(media_type \<Rightarrow> bool) \<Rightarrow> media_type list \<Rightarrow> double \<Rightarrow> double" where
  "last_quality P es d = (case filter P es of [] \<Rightarrow> d | x # xs \<Rightarrow> quality (last (x # xs)))"

text \<open>
  The lookup as the specification words it: the quality of the first \<open>main/*\<close> entry, else
  that of the first \<open>*/*\<close> entry, else 0.0.
\<close>

definition main_wildcard :: "string \<Rightarrow> string" where
  "main_wildcard ty = takeWhile (\<lambda>c. c \<noteq> CHR ''/'') ty @ ''/*''"

definition first_seen_quality :: "media_type list \<Rightarrow> string \<Rightarrow> double" where
  "first_seen_quality st ty =
     (case find (\<lambda>e. type e = main_wildcard ty) st of
        Some e \<Rightarrow> quality e
      | None \<Rightarrow> (case find (\<lambda>e. type e = ''*/*'') st of Some e \<Rightarrow> quality e | None \<Rightarrow> Num 0))"

text \<open>The block \<open>double quality = 0.0; for (j = 0; ...)\<close> that scores one preferred type.\<close>

definition accepted_quality :: "acceptnorm_state \<Rightarrow> string \<Rightarrow> double" where
  "accepted_quality st pt = match_quality st pt (Num 0)"

text \<open>
  The comma-separated elements of a string, an element without its surrounding white
  space, and the elements that are left after trimming, in lower case.
\<close>

fun split_commas :: "string \<Rightarrow> string list" where
  "split_commas [] = [[]]"
| "split_commas (c # cs) =
     (if c = CHR '','' then [] # split_commas cs
      else case split_commas cs of [] \<Rightarrow> [[c]] | x # xs \<Rightarrow> (c # x) # xs)"

definition trim :: "string \<Rightarrow> string" where
  "trim s = trim_trailing (skip_ws s)"

definition preferred_elements :: "string \<Rightarrow> string list" where
  "preferred_elements s = map (map tolower) (filter (\<lambda>t. t \<noteq> []) (map trim (split_commas s)))"

text \<open>A quality as the parser leaves it: clamping it again changes nothing.\<close>

definition clamped :: "double \<Rightarrow> bool" where
  "clamped q = (clamp_quality q = q)"

text \<open>
  A type token as the parser stores it: not empty, free of \<open>;\<close> and \<open>,\<close>, without white
  space at either end, and in lower case.
\<close>

definition clean_type :: "string \<Rightarrow> bool" where
  "clean_type ty =
     (ty \<noteq> [] \<and> list_all (\<lambda>c. \<not> is_sep c) ty \<and> \<not> isspace (hd ty) \<and> \<not> isspace (last ty)
      \<and> map tolower ty = ty)"

text \<open>
  A quality that the one-digit format gives back: it is 1.0, for which nothing is
  written, or it is below 1.0 and \<open>strtod\<close> reads it from its \<open>%.1f\<close> rendering.
\<close>

definition survives_format :: "double \<Rightarrow> bool" where
  "survives_format q = (q = Num 1 \<or> (dless q (Num 1) \<and> fst (strtod (printf_1f q)) = q))"

text \<open>
  What one round of the loop of \<open>build_accept_string\<close> writes for an entry, without the
  separator, and what the rounds after the first one write.
\<close>

definition entry_string :: "media_type \<Rightarrow> string" where
  "entry_string e =
     type e @ (if dless (quality e) (Num 1) then '';q='' @ printf_1f (quality e) else [])"

definition more_entries :: "media_type list \<Rightarrow> string" where
  "more_entries es = concat (map (\<lambda>e. '', '' @ entry_string e) es)"

text \<open>An entry that is read back as it is from the string built for it.\<close>

definition good_entry :: "media_type \<Rightarrow> bool" where
  "good_entry e = (clean_type (type e) \<and> clamped (quality e) \<and> survives_format (quality e))"

text \<open>The order of the comparison function: \<open>a\<close> may stand before \<open>b\<close>.\<close>

definition cmp_le :: "media_type \<Rightarrow> media_type \<Rightarrow> bool" where
  "cmp_le a b = (media_type_cmp a b \<le> 0)"


section \<open>Properties of the parser\<close>

lemma parse_entries_upto:
  "parse_entries st p = st @ parse_upto (MAX_MEDIA_TYPES - length st) p"
proof (induction st p rule: parse_entries.induct)
  case (1 st p)
  show ?case
  proof (cases "p \<noteq> [] \<and> length st < MAX_MEDIA_TYPES")
    case False
    then show ?thesis
      by (cases "MAX_MEDIA_TYPES - length st") (auto simp: parse_entries.simps [of st p])
  next
    case True
    then obtain n where n: "MAX_MEDIA_TYPES - length st = Suc n"
      by (cases "MAX_MEDIA_TYPES - length st") auto
    show ?thesis
    proof (cases "parse_media_type p")
      case None
      then show ?thesis
        using True n by (simp add: parse_entries.simps [of st p])
    next
      case (Some r)
      obtain p' ty q where r: "r = (p', ty, q)"
        by (cases r) auto
      have "MAX_MEDIA_TYPES - length (st @ [\<lparr>type = ty, quality = q\<rparr>]) = n"
        using n by simp
      then show ?thesis
        using True n Some r "1.IH" [OF True Some [unfolded r] refl refl]
        by (simp add: parse_entries.simps [of st p])
    qed
  qed
qed

lemma clamp_quality_range: "clamp_quality v = NaN \<or> in_unit (clamp_quality v)"
  by (cases v) (auto simp: clamp_quality_def in_unit_def dless_def dge_def Let_def)

lemma parse_params_quality:
  "parse_params p q0 = (p', q') \<Longrightarrow> q' = q0 \<or> (\<exists>v. q' = clamp_quality v)"
proof (induction p q0 arbitrary: p' q' rule: parse_params.induct)
  case (1 p qual)
  show ?case
  proof (cases p)
    case Nil
    then show ?thesis using "1.prems" parse_params.simps [of p qual] by simp
  next
    case (Cons c r)
    show ?thesis
    proof (cases "c = CHR '';''")
      case False
      then show ?thesis using "1.prems" Cons parse_params.simps [of p qual] by simp
    next
      case True
      obtain p1 q1 where s: "parse_param r qual = (p1, q1)"
        by (cases "parse_param r qual") auto
      have "q1 = qual \<or> (\<exists>v. q1 = clamp_quality v)"
        using s by (auto simp: parse_param_def Let_def split: list.splits if_splits prod.splits)
      moreover have "parse_params p1 q1 = (p', q')"
        using "1.prems" Cons True s parse_params.simps [of p qual] by simp
      then have "q' = q1 \<or> (\<exists>v. q' = clamp_quality v)"
        by (rule "1.IH" [OF Cons True s [symmetric]])
      ultimately show ?thesis by auto
    qed
  qed
qed

lemma parse_media_type_quality:
  assumes "parse_media_type p = Some (p', ty, q)"
  shows "q = Num 1 \<or> (\<exists>v. q = clamp_quality v)"
proof -
  obtain p1 where "\<exists>p2. parse_params p1 (Num 1) = (p2, q)"
    using assms unfolding parse_media_type_def
    by (auto simp: Let_def split: if_splits prod.splits)
  then show ?thesis
    using parse_params_quality by blast
qed

lemma parse_upto_quality:
  "e \<in> set (parse_upto n p) \<Longrightarrow> quality e = Num 1 \<or> (\<exists>v. quality e = clamp_quality v)"
proof (induction n arbitrary: p)
  case 0
  then show ?case by simp
next
  case (Suc n)
  show ?case
  proof (cases "parse_media_type p")
    case None
    then show ?thesis using Suc.prems by (simp split: if_splits)
  next
    case (Some r)
    obtain p' ty q where r: "r = (p', ty, q)"
      by (cases r) auto
    have "e = \<lparr>type = ty, quality = q\<rparr> \<or> e \<in> set (parse_upto n p')"
      using Suc.prems Some r by (simp split: if_splits)
    then show ?thesis
      using parse_media_type_quality [OF Some [unfolded r]] Suc.IH [of p'] by auto
  qed
qed

lemma parse_accept_header_quality:
  assumes "e \<in> set (parse_accept_header h)"
  shows "quality e = Num 1 \<or> (\<exists>v. quality e = clamp_quality v)"
  using assms parse_upto_quality
  by (auto simp: parse_accept_header_def parse_entries_upto split: option.splits if_splits)

lemma quality_scan_result:
  "quality_scan ty pre es w tw = r \<Longrightarrow>
     r = Num 0 \<or> r \<in> quality ` set es \<or> (r = w \<and> dge w (Num 0)) \<or> (r = tw \<and> dge tw (Num 0))"
proof (induction es arbitrary: w tw)
  case Nil
  then show ?case by (auto split: if_splits)
next
  case (Cons e es)
  show ?case
  proof (cases "type e = ty")
    case True
    then show ?thesis using Cons.prems by auto
  next
    case False
    then show ?thesis
      using Cons.prems Cons.IH [of "quality e" tw] Cons.IH [of w "quality e"] Cons.IH [of w tw]
      by (auto split: if_splits)
  qed
qed

lemma get_quality_for_type_result:
  "get_quality_for_type st ty = Num 0 \<or> get_quality_for_type st ty \<in> quality ` set st"
  using quality_scan_result [of ty "type_prefix ty" st "Num (- 1)" "Num (- 1)", OF refl]
  by (auto simp: get_quality_for_type_def dge_def)

lemma in_unit_consts: "in_unit (Num 0)" "in_unit (Num 1)"
  by (simp_all add: in_unit_def dge_def)

section \<open>Quality lookup\<close>

lemma quality_scan_exact:
  "find (\<lambda>x. type x = ty) es = Some e \<Longrightarrow> quality_scan ty pre es w tw = quality e"
  by (induction es arbitrary: w tw) (auto split: if_splits)

text \<open>
  Claim C8. When the parsed list has an entry whose type equals the type looked up,
  \<open>get_quality_for_type\<close> returns the quality of the first such entry, whatever wildcard
  entries stand before or after it and whatever their qualities are; and
  \<open>quality("text/*;q=0.5, */*;q=0.1, text/html;q=0.9", "text/html")\<close> is the double 0.9.
\<close>

theorem exact_match_wins:
  assumes "find (\<lambda>x. type x = ty) st = Some e"
  shows "get_quality_for_type st ty = quality e
    \<and> vmod_quality (Some ''text/*;q=0.5, */*;q=0.1, text/html;q=0.9'') (Some ''text/html'')
        = binary64 9 10"
proof -
  have "get_quality_for_type st ty = quality e"
    using assms by (simp add: get_quality_for_type_def quality_scan_exact)
  moreover have
    "vmod_quality (Some ''text/*;q=0.5, */*;q=0.1, text/html;q=0.9'') (Some ''text/html'')
       = binary64 9 10"
    by code_simp
  ultimately show ?thesis by simp
qed

theorem exact_match_wins_witness:
  "find (\<lambda>x. type x = ''text/html'')
     [\<lparr>type = ''text/*'', quality = Num 1\<rparr>, \<lparr>type = ''text/html'', quality = Num (1 / 4)\<rparr>,
      \<lparr>type = ''text/html'', quality = Num (1 / 2)\<rparr>]
     = Some \<lparr>type = ''text/html'', quality = Num (1 / 4)\<rparr>
   \<and> get_quality_for_type
     [\<lparr>type = ''text/*'', quality = Num 1\<rparr>, \<lparr>type = ''text/html'', quality = Num (1 / 4)\<rparr>,
      \<lparr>type = ''text/html'', quality = Num (1 / 2)\<rparr>] ''text/html'' = Num (1 / 4)"
proof -
  have h: "find (\<lambda>x. type x = ''text/html'')
     [\<lparr>type = ''text/*'', quality = Num 1\<rparr>, \<lparr>type = ''text/html'', quality = Num (1 / 4)\<rparr>,
      \<lparr>type = ''text/html'', quality = Num (1 / 2)\<rparr>]
     = Some \<lparr>type = ''text/html'', quality = Num (1 / 4)\<rparr>"
    by simp
  show ?thesis
    using h exact_match_wins [OF h] by simp
qed

text \<open>
  Claim C7. \<open>vmod_quality\<close> returns a value between 0.0 and 1.0 or NaN, and NaN is
  reached: the two clamping comparisons are both false on the NaN that \<open>strtod\<close> returns for
  \<open>q=nan\<close>, so the quality of \<open>text/html;q=nan\<close> is NaN, outside the interval. The
  values of \<open>q=5\<close> and \<open>q=-3\<close> are clamped to 1.0 and 0.0.
\<close>

theorem quality_range:
  "(vmod_quality h m = NaN \<or> in_unit (vmod_quality h m))
   \<and> vmod_quality (Some ''text/html;q=nan'') (Some ''text/html'') = NaN
   \<and> parse_accept_header (Some ''text/html;q=5'') = [\<lparr>type = ''text/html'', quality = Num 1\<rparr>]
   \<and> parse_accept_header (Some ''text/html;q=-3'') = [\<lparr>type = ''text/html'', quality = Num 0\<rparr>]
   \<and> vmod_quality (Some ''text/html;q=5'') (Some ''text/html'') = Num 1
   \<and> vmod_quality (Some ''text/html;q=-3'') (Some ''text/html'') = Num 0"
proof -
  have "vmod_quality h m = Num 0 \<or> vmod_quality h m \<in> quality ` set (parse_accept_header h)"
    using get_quality_for_type_result [of "parse_accept_header h"]
    by (auto simp: vmod_quality_def split: option.splits)
  then consider "vmod_quality h m = Num 0"
    | e where "e \<in> set (parse_accept_header h)" "vmod_quality h m = quality e"
    by auto
  then have "vmod_quality h m = NaN \<or> in_unit (vmod_quality h m)"
  proof cases
    case 1
    then show ?thesis by (simp add: in_unit_consts)
  next
    case 2
    from parse_accept_header_quality [OF 2(1)] show ?thesis
    proof
      assume "quality e = Num 1"
      then show ?thesis using 2(2) by (simp add: in_unit_consts)
    next
      assume "\<exists>v. quality e = clamp_quality v"
      then obtain v where "quality e = clamp_quality v" ..
      then show ?thesis using 2(2) clamp_quality_range [of v] by simp
    qed
  qed
  moreover have "vmod_quality (Some ''text/html;q=nan'') (Some ''text/html'') = NaN"
    by code_simp
  moreover have
    "parse_accept_header (Some ''text/html;q=5'') = [\<lparr>type = ''text/html'', quality = Num 1\<rparr>]"
    "parse_accept_header (Some ''text/html;q=-3'') = [\<lparr>type = ''text/html'', quality = Num 0\<rparr>]"
    by code_simp+
  moreover have "vmod_quality (Some ''text/html;q=5'') (Some ''text/html'') = Num 1"
    by code_simp
  moreover have "vmod_quality (Some ''text/html;q=-3'') (Some ''text/html'') = Num 0"
    by code_simp
  ultimately show ?thesis by simp
qed

text \<open>
  Claim C4. A segment whose type token is empty is not skipped: \<open>parse_media_type\<close> returns
  \<open>NULL\<close> for it and the loop of \<open>parse_accept_header\<close> ends there, so the segments after it
  are lost. For \<open>text/html,,image/png\<close> the parsed list is the single entry \<open>text/html\<close> and
  the quality of \<open>image/png\<close> is 0.0, whereas \<open>parse_preferred_types\<close> steps over the same
  empty element and goes on.
\<close>

theorem empty_segment_stops_parsing:
  "parse_accept_header (Some ''text/html,,image/png'')
     = [\<lparr>type = ''text/html'', quality = Num 1\<rparr>]
   \<and> vmod_quality (Some ''text/html,,image/png'') (Some ''image/png'') = Num 0
   \<and> parse_preferred_types (Some ''text/html,,image/png'') MAX_MEDIA_TYPES
     = [''text/html'', ''image/png'']"
  by code_simp

section \<open>Wildcard entries in the quality lookup\<close>

lemma last_quality_Nil [simp]: "last_quality P [] d = d"
  by (simp add: last_quality_def)

lemma last_quality_Cons:
  "last_quality P (e # es) d = (if P e then last_quality P es (quality e) else last_quality P es d)"
  by (cases "filter P es") (simp_all add: last_quality_def)

lemma quality_scan_last:
  assumes "\<forall>e\<in>set es. type e \<noteq> ty"
  shows "quality_scan ty pre es w tw =
    resolve_wildcards
      (last_quality (\<lambda>e. type e \<noteq> ''*/*'' \<and> pre \<noteq> [] \<and> type e = pre) es tw)
      (last_quality (\<lambda>e. type e = ''*/*'') es w)"
  using assms
proof (induction es arbitrary: w tw)
  case Nil
  show ?case by (simp add: resolve_wildcards_def)
next
  case (Cons e es)
  then show ?case
    by (simp add: last_quality_Cons)
qed

lemma get_quality_for_type_wildcards:
  assumes "\<forall>e\<in>set st. type e \<noteq> ty"
  shows "get_quality_for_type st ty =
    resolve_wildcards
      (last_quality (\<lambda>e. type e \<noteq> ''*/*'' \<and> type_prefix ty \<noteq> [] \<and> type e = type_prefix ty)
         st (Num (- 1)))
      (last_quality (\<lambda>e. type e = ''*/*'') st (Num (- 1)))"
  unfolding get_quality_for_type_def by (rule quality_scan_last [OF assms])

text \<open>
  Claim C1, as amended. When no entry equals the concrete type, \<open>get_quality_for_type\<close>
  keeps for each wildcard category the quality of the last entry of that category in list
  order (each matching entry overwrites the running value), the \<open>main/*\<close> category being
  the entries equal to the prefix buffer. It returns the \<open>main/*\<close> value when that
  category occurred with a value \<open>>= 0.0\<close>, else the \<open>*/*\<close> value when that one occurred
  with a value \<open>>= 0.0\<close>, else 0.0.
\<close>

theorem wildcard_last_seen:
  assumes "\<forall>e\<in>set st. type e \<noteq> ty"
  shows "get_quality_for_type st ty =
    resolve_wildcards
      (last_quality (\<lambda>e. type e \<noteq> ''*/*'' \<and> type_prefix ty \<noteq> [] \<and> type e = type_prefix ty)
         st (Num (- 1)))
      (last_quality (\<lambda>e. type e = ''*/*'') st (Num (- 1)))"
  using assms by (rule get_quality_for_type_wildcards)

theorem wildcard_last_seen_witness:
  "get_quality_for_type
     [\<lparr>type = ''text/*'', quality = Num (1 / 4)\<rparr>, \<lparr>type = ''*/*'', quality = Num 1\<rparr>,
      \<lparr>type = ''text/*'', quality = Num (1 / 2)\<rparr>] ''text/html'' = Num (1 / 2)"
proof -
  have h: "\<forall>e\<in>set [\<lparr>type = ''text/*'', quality = Num (1 / 4)\<rparr>, \<lparr>type = ''*/*'', quality = Num 1\<rparr>,
               \<lparr>type = ''text/*'', quality = Num (1 / 2)\<rparr>]. type e \<noteq> ''text/html''"
    by simp
  have p: "type_prefix ''text/html'' = ''text/*''"
    by code_simp
  have "resolve_wildcards (Num (1 / 2)) (Num 1) = Num (1 / 2)"
    by code_simp
  then show ?thesis
    using wildcard_last_seen [OF h] by (simp add: p last_quality_def)
qed

text \<open>
  Claim C1 as stated fails: of two \<open>text/*\<close> entries, or of two \<open>*/*\<close> entries, the
  quality returned is that of the second, not of the first.
\<close>

theorem wildcard_first_seen_counterexample:
  "get_quality_for_type (parse_accept_header (Some ''text/*;q=0.5, text/*;q=1'')) ''text/html''
     = Num 1
   \<and> first_seen_quality (parse_accept_header (Some ''text/*;q=0.5, text/*;q=1'')) ''text/html''
     = Num (1 / 2)
   \<and> get_quality_for_type (parse_accept_header (Some ''*/*;q=0.5, */*;q=1'')) ''text/html''
     = Num 1
   \<and> first_seen_quality (parse_accept_header (Some ''*/*;q=0.5, */*;q=1'')) ''text/html''
     = Num (1 / 2)"
  by code_simp

section \<open>Quality text that is not a number\<close>



lemma skip_ws_id: "p \<noteq> [] \<Longrightarrow> \<not> isspace (hd p) \<Longrightarrow> skip_ws p = p"
  by (cases p) (simp_all add: skip_ws_def)

lemma trim_trailing_id: "s \<noteq> [] \<Longrightarrow> \<not> isspace (last s) \<Longrightarrow> trim_trailing s = s"
  by (cases s rule: rev_cases) (simp_all add: trim_trailing_def)

lemma takeWhile_token:
  assumes "\<forall>c\<in>set t. P c" and "r = [] \<or> \<not> P (hd r)"
  shows "takeWhile P (t @ r) = t" and "dropWhile P (t @ r) = r"
  using assms by (cases r; simp)+

lemma parse_params_stop: "(\<forall>r. p \<noteq> CHR '';'' # r) \<Longrightarrow> parse_params p q = (p, q)"
  using parse_params.simps [of p q] by (cases p) auto













section \<open>Ordering of doubles\<close>

lemma dless_irrefl: "\<not> dless a a"
  by (simp add: dless_def)

lemma dless_trans: "dless a b \<Longrightarrow> dless b c \<Longrightarrow> dless a c"
  by (auto simp: dless_def)

lemma dless_asym: "dless a b \<Longrightarrow> \<not> dless b a"
  by (auto simp: dless_def)

lemma dless_not_nan: "dless a b \<Longrightarrow> a \<noteq> NaN \<and> b \<noteq> NaN"
  by (simp add: dless_def)

lemma dless_cases:
  "a \<noteq> NaN \<Longrightarrow> b \<noteq> NaN \<Longrightarrow> \<not> dless a b \<Longrightarrow> dless a c \<Longrightarrow> dless b c"
  by (auto simp: dless_def)

section \<open>The operation prefer\<close>

lemma prefer_inner_iff:
  "prefer_inner st pt \<longleftrightarrow>
     (\<exists>e\<in>set st. media_type_match (type e) pt \<and> dless (Num 0) (quality e))"
  by (induction st) auto

lemma prefer_loop_find: "prefer_loop st ps = find (prefer_inner st) ps"
  by (induction ps) auto

text \<open>
  Claim C9. For a non-empty header and a non-empty preferred list, \<open>vmod_prefer\<close> returns
  the first preferred type, in the order of the list, for which some header entry matches
  it as pattern and has a quality above 0.0, which is the preferred type of the first
  accepting combination of the two nested scans; when there is none it returns the header
  string itself, unchanged, as for \<open>prefer("text/plain;q=0.8", "application/json")\<close>.
\<close>

theorem prefer_first_accepted:
  assumes "h \<noteq> []" and "parse_preferred_types preferred MAX_MEDIA_TYPES \<noteq> []"
  shows "vmod_prefer (Some h) preferred =
      (case find (\<lambda>pt. \<exists>e\<in>set (parse_accept_header (Some h)).
                      media_type_match (type e) pt \<and> dless (Num 0) (quality e))
                 (parse_preferred_types preferred MAX_MEDIA_TYPES) of
         Some pt \<Rightarrow> pt
       | None \<Rightarrow> h)
    \<and> vmod_prefer (Some ''text/plain;q=0.8'') (Some ''application/json'') = ''text/plain;q=0.8''"
proof -
  have "prefer_inner st = (\<lambda>pt. \<exists>e\<in>set st. media_type_match (type e) pt \<and> dless (Num 0) (quality e))"
    for st
    by (rule ext) (rule prefer_inner_iff)
  then have "vmod_prefer (Some h) preferred =
      (case find (\<lambda>pt. \<exists>e\<in>set (parse_accept_header (Some h)).
                      media_type_match (type e) pt \<and> dless (Num 0) (quality e))
                 (parse_preferred_types preferred MAX_MEDIA_TYPES) of
         Some pt \<Rightarrow> pt
       | None \<Rightarrow> h)"
    using assms by (simp add: vmod_prefer_def prefer_loop_find split: list.splits option.splits)
  moreover have
    "vmod_prefer (Some ''text/plain;q=0.8'') (Some ''application/json'') = ''text/plain;q=0.8''"
    by code_simp
  ultimately show ?thesis by simp
qed

theorem prefer_first_accepted_witness:
  "vmod_prefer (Some ''text/plain;q=0, image/*;q=0.5'') (Some ''text/plain, image/png, image/gif'')
     = ''image/png''"
proof -
  have 1: "''text/plain;q=0, image/*;q=0.5'' \<noteq> []"
    by simp
  have 2: "parse_preferred_types (Some ''text/plain, image/png, image/gif'') MAX_MEDIA_TYPES
      = [''text/plain'', ''image/png'', ''image/gif'']"
    by code_simp
  have 3: "parse_accept_header (Some ''text/plain;q=0, image/*;q=0.5'')
      = [\<lparr>type = ''text/plain'', quality = Num 0\<rparr>, \<lparr>type = ''image/*'', quality = Num (1 / 2)\<rparr>]"
    by code_simp
  have 4: "\<not> dless (Num 0) (Num 0)" "dless (Num 0) (Num (1 / 2))"
    "media_type_match ''text/plain'' ''text/plain''"
    "\<not> media_type_match ''image/*'' ''text/plain''"
    "media_type_match ''image/*'' ''image/png''"
    by code_simp+
  have "parse_preferred_types (Some ''text/plain, image/png, image/gif'') MAX_MEDIA_TYPES \<noteq> []"
    by (simp add: 2)
  from prefer_first_accepted [OF 1 this] show ?thesis
    by (simp add: 2 3 4)
qed

lemma dless_minus_one:
  assumes "x \<noteq> NaN" and "\<not> dless x (Num 0)"
  shows "dless (Num (- 1)) x"
proof -
  have "dord (Num 0) \<le> dord x"
    using assms by (simp add: dless_def not_less)
  moreover have "dord (Num (- 1)) < dord (Num 0)"
    by simp
  ultimately have "dord (Num (- 1)) < dord x"
    by (rule less_le_trans [rotated])
  then show ?thesis
    using assms(1) by (simp add: dless_def)
qed

section \<open>The operation best-match\<close>

lemma match_quality_max:
  assumes "q \<noteq> NaN"
  shows "match_quality es pt q \<noteq> NaN
    \<and> \<not> dless (match_quality es pt q) q
    \<and> (match_quality es pt q = q
        \<or> (\<exists>e\<in>set es. media_type_match (type e) pt \<and> match_quality es pt q = quality e))
    \<and> (\<forall>e\<in>set es. media_type_match (type e) pt \<longrightarrow> \<not> dless (match_quality es pt q) (quality e))"
  using assms
proof (induction es arbitrary: q)
  case Nil
  then show ?case by (simp add: dless_irrefl)
next
  case (Cons e es)
  define q' where "q' = (if media_type_match (type e) pt \<and> dless q (quality e) then quality e else q)"
  define r where "r = match_quality es pt q'"
  have r: "match_quality (e # es) pt q = r"
    by (simp add: r_def q'_def)
  have q': "q' \<noteq> NaN"
    using Cons.prems dless_not_nan [of q "quality e"] by (auto simp: q'_def)
  note ih = Cons.IH [OF q', folded r_def]
  have qq': "\<not> dless q' q"
    using dless_asym [of q "quality e"] by (auto simp: q'_def dless_irrefl)
  have 1: "\<not> dless r q"
  proof
    assume "dless r q"
    then have "dless r q'"
      using qq' q' ih Cons.prems by (auto simp: dless_def)
    then show False using ih by simp
  qed
  have 2: "r = q \<or> (\<exists>x\<in>set (e # es). media_type_match (type x) pt \<and> r = quality x)"
    using ih by (auto simp: q'_def split: if_splits)
  have 3: "media_type_match (type e) pt \<Longrightarrow> \<not> dless r (quality e)"
  proof
    assume m: "media_type_match (type e) pt" and d: "dless r (quality e)"
    then have "dless r q'"
      using ih q' Cons.prems by (auto simp: q'_def dless_def split: if_splits)
    then show False using ih by simp
  qed
  show ?case
    unfolding r using ih 1 2 3 by auto
qed

lemma best_loop_spec:
  assumes "bq \<noteq> NaN"
  shows "(best_loop st ps bt bq = bt
          \<and> (\<forall>p\<in>set ps. \<not> dless bq (match_quality st p (Num 0))))
    \<or> (\<exists>i<length ps. best_loop st ps bt bq = Some (ps ! i)
          \<and> dless bq (match_quality st (ps ! i) (Num 0))
          \<and> (\<forall>j<length ps. \<not> dless (match_quality st (ps ! i) (Num 0))
                                     (match_quality st (ps ! j) (Num 0)))
          \<and> (\<forall>j<i. dless (match_quality st (ps ! j) (Num 0))
                          (match_quality st (ps ! i) (Num 0))))"
  using assms
proof (induction ps arbitrary: bt bq)
  case Nil
  then show ?case by simp
next
  case (Cons p ps)
  let ?s = "\<lambda>x. match_quality st x (Num 0)"
  have sn: "?s x \<noteq> NaN" for x
    using match_quality_max [of "Num 0" st x] by simp
  show ?case
  proof (cases "dless bq (?s p)")
    case True
    then have eq: "best_loop st (p # ps) bt bq = best_loop st ps (Some p) (?s p)"
      by (simp add: Let_def)
    from Cons.IH [of "?s p" "Some p", OF sn] show ?thesis
    proof
      assume a: "best_loop st ps (Some p) (?s p) = Some p
          \<and> (\<forall>x\<in>set ps. \<not> dless (?s p) (?s x))"
      have "\<forall>j<length (p # ps). \<not> dless (?s p) (?s ((p # ps) ! j))"
      proof (intro allI impI)
        fix j assume "j < length (p # ps)"
        then show "\<not> dless (?s p) (?s ((p # ps) ! j))"
          using a by (cases j) (auto simp: dless_irrefl)
      qed
      then have "0 < length (p # ps) \<and> best_loop st (p # ps) bt bq = Some ((p # ps) ! 0)
          \<and> dless bq (?s ((p # ps) ! 0))
          \<and> (\<forall>j<length (p # ps). \<not> dless (?s ((p # ps) ! 0)) (?s ((p # ps) ! j)))
          \<and> (\<forall>j<0. dless (?s ((p # ps) ! j)) (?s ((p # ps) ! 0)))"
        using a eq True by simp
      then show ?thesis by blast
    next
      assume "\<exists>i<length ps. best_loop st ps (Some p) (?s p) = Some (ps ! i)
          \<and> dless (?s p) (?s (ps ! i))
          \<and> (\<forall>j<length ps. \<not> dless (?s (ps ! i)) (?s (ps ! j)))
          \<and> (\<forall>j<i. dless (?s (ps ! j)) (?s (ps ! i)))"
      then obtain i where i: "i < length ps"
        "best_loop st ps (Some p) (?s p) = Some (ps ! i)"
        "dless (?s p) (?s (ps ! i))"
        "\<forall>j<length ps. \<not> dless (?s (ps ! i)) (?s (ps ! j))"
        "\<forall>j<i. dless (?s (ps ! j)) (?s (ps ! i))"
        by blast
      have m: "\<forall>j<length (p # ps). \<not> dless (?s (ps ! i)) (?s ((p # ps) ! j))"
      proof (intro allI impI)
        fix j assume "j < length (p # ps)"
        then show "\<not> dless (?s (ps ! i)) (?s ((p # ps) ! j))"
          using i(3,4) dless_asym by (cases j) auto
      qed
      have l: "\<forall>j<Suc i. dless (?s ((p # ps) ! j)) (?s (ps ! i))"
      proof (intro allI impI)
        fix j assume "j < Suc i"
        then show "dless (?s ((p # ps) ! j)) (?s (ps ! i))"
          using i(3,5) by (cases j) auto
      qed
      have "Suc i < length (p # ps) \<and> best_loop st (p # ps) bt bq = Some ((p # ps) ! Suc i)
          \<and> dless bq (?s ((p # ps) ! Suc i))
          \<and> (\<forall>j<length (p # ps). \<not> dless (?s ((p # ps) ! Suc i)) (?s ((p # ps) ! j)))
          \<and> (\<forall>j<Suc i. dless (?s ((p # ps) ! j)) (?s ((p # ps) ! Suc i)))"
        using i(1,2) eq dless_trans [OF True i(3)] m l by simp
      then show ?thesis by blast
    qed
  next
    case False
    then have eq: "best_loop st (p # ps) bt bq = best_loop st ps bt bq"
      by (simp add: Let_def)
    from Cons.IH [of bq bt, OF Cons.prems] show ?thesis
    proof
      assume "best_loop st ps bt bq = bt \<and> (\<forall>x\<in>set ps. \<not> dless bq (?s x))"
      then show ?thesis using eq False by simp
    next
      assume "\<exists>i<length ps. best_loop st ps bt bq = Some (ps ! i)
          \<and> dless bq (?s (ps ! i))
          \<and> (\<forall>j<length ps. \<not> dless (?s (ps ! i)) (?s (ps ! j)))
          \<and> (\<forall>j<i. dless (?s (ps ! j)) (?s (ps ! i)))"
      then obtain i where i: "i < length ps"
        "best_loop st ps bt bq = Some (ps ! i)"
        "dless bq (?s (ps ! i))"
        "\<forall>j<length ps. \<not> dless (?s (ps ! i)) (?s (ps ! j))"
        "\<forall>j<i. dless (?s (ps ! j)) (?s (ps ! i))"
        by blast
      have pi: "dless (?s p) (?s (ps ! i))"
        using dless_cases [OF Cons.prems sn False i(3)] .
      have m: "\<forall>j<length (p # ps). \<not> dless (?s (ps ! i)) (?s ((p # ps) ! j))"
      proof (intro allI impI)
        fix j assume "j < length (p # ps)"
        then show "\<not> dless (?s (ps ! i)) (?s ((p # ps) ! j))"
          using pi i(4) dless_asym by (cases j) auto
      qed
      have l: "\<forall>j<Suc i. dless (?s ((p # ps) ! j)) (?s (ps ! i))"
      proof (intro allI impI)
        fix j assume "j < Suc i"
        then show "dless (?s ((p # ps) ! j)) (?s (ps ! i))"
          using pi i(5) by (cases j) auto
      qed
      have "Suc i < length (p # ps) \<and> best_loop st (p # ps) bt bq = Some ((p # ps) ! Suc i)
          \<and> dless bq (?s ((p # ps) ! Suc i))
          \<and> (\<forall>j<length (p # ps). \<not> dless (?s ((p # ps) ! Suc i)) (?s ((p # ps) ! j)))
          \<and> (\<forall>j<Suc i. dless (?s ((p # ps) ! j)) (?s ((p # ps) ! Suc i)))"
        using i(1,2,3) eq m l by simp
      then show ?thesis by blast
    qed
  qed
qed

text \<open>
  Claim C6. For a non-empty header and a non-empty preferred list, each preferred type is
  scored with the greatest quality among 0.0 and the header entries that match it, and
  \<open>vmod_best_match\<close> returns the preferred type at the first position whose score no other
  position exceeds: every earlier type scores strictly less, so a tie keeps the earlier
  type. As the running best starts at -1.0, a first preferred type that scores exactly 0.0
  is returned when no preferred type scores above 0.0.
\<close>

theorem best_match_selection:
  assumes "h \<noteq> []" and "parse_preferred_types preferred MAX_MEDIA_TYPES = ps" and "ps \<noteq> []"
    and "st = parse_accept_header (Some h)"
  shows "(\<forall>pt. (accepted_quality st pt = Num 0
               \<or> (\<exists>e\<in>set st. media_type_match (type e) pt \<and> accepted_quality st pt = quality e))
            \<and> (\<forall>e\<in>set st. media_type_match (type e) pt
                  \<longrightarrow> \<not> dless (accepted_quality st pt) (quality e)))
    \<and> (\<exists>i<length ps. vmod_best_match (Some h) preferred = ps ! i
          \<and> (\<forall>j<length ps. \<not> dless (accepted_quality st (ps ! i)) (accepted_quality st (ps ! j)))
          \<and> (\<forall>j<i. dless (accepted_quality st (ps ! j)) (accepted_quality st (ps ! i))))
    \<and> (accepted_quality st (ps ! 0) = Num 0
          \<and> (\<forall>j<length ps. \<not> dless (Num 0) (accepted_quality st (ps ! j)))
        \<longrightarrow> vmod_best_match (Some h) preferred = ps ! 0)"
proof -
  have mq: "match_quality st pt (Num 0) \<noteq> NaN
    \<and> \<not> dless (match_quality st pt (Num 0)) (Num 0)
    \<and> (match_quality st pt (Num 0) = Num 0
        \<or> (\<exists>e\<in>set st. media_type_match (type e) pt \<and> match_quality st pt (Num 0) = quality e))
    \<and> (\<forall>e\<in>set st. media_type_match (type e) pt
          \<longrightarrow> \<not> dless (match_quality st pt (Num 0)) (quality e))" for pt
    by (rule match_quality_max) simp
  have 1: "\<forall>pt. (accepted_quality st pt = Num 0
               \<or> (\<exists>e\<in>set st. media_type_match (type e) pt \<and> accepted_quality st pt = quality e))
            \<and> (\<forall>e\<in>set st. media_type_match (type e) pt
                  \<longrightarrow> \<not> dless (accepted_quality st pt) (quality e))"
    unfolding accepted_quality_def using mq by blast
  obtain first rest where ps: "ps = first # rest"
    using assms(3) by (cases ps) auto
  have low: "dless (Num (- 1)) (match_quality st pt (Num 0))" for pt
    using mq [of pt] by (intro dless_minus_one) simp_all
  have "\<not> (\<forall>p\<in>set ps. \<not> dless (Num (- 1)) (match_quality st p (Num 0)))"
    using low ps by auto
  then have "\<exists>i<length ps. best_loop st ps None (Num (- 1)) = Some (ps ! i)
          \<and> dless (Num (- 1)) (match_quality st (ps ! i) (Num 0))
          \<and> (\<forall>j<length ps. \<not> dless (match_quality st (ps ! i) (Num 0))
                                     (match_quality st (ps ! j) (Num 0)))
          \<and> (\<forall>j<i. dless (match_quality st (ps ! j) (Num 0))
                          (match_quality st (ps ! i) (Num 0)))"
    using best_loop_spec [of "Num (- 1)" st ps None] by blast
  then obtain i where i: "i < length ps" "best_loop st ps None (Num (- 1)) = Some (ps ! i)"
      "\<forall>j<length ps. \<not> dless (accepted_quality st (ps ! i)) (accepted_quality st (ps ! j))"
      "\<forall>j<i. dless (accepted_quality st (ps ! j)) (accepted_quality st (ps ! i))"
    unfolding accepted_quality_def by blast
  have res: "vmod_best_match (Some h) preferred = ps ! i"
    using assms(1,2,4) i(2) ps by (simp add: vmod_best_match_def absent_def)
  have 2: "\<exists>i<length ps. vmod_best_match (Some h) preferred = ps ! i
          \<and> (\<forall>j<length ps. \<not> dless (accepted_quality st (ps ! i)) (accepted_quality st (ps ! j)))
          \<and> (\<forall>j<i. dless (accepted_quality st (ps ! j)) (accepted_quality st (ps ! i)))"
    using i(1,3,4) res by blast
  have 3: "vmod_best_match (Some h) preferred = ps ! 0"
    if z: "accepted_quality st (ps ! 0) = Num 0"
      and a: "\<forall>j<length ps. \<not> dless (Num 0) (accepted_quality st (ps ! j))"
  proof (cases i)
    case 0
    then show ?thesis using res by simp
  next
    case (Suc k)
    then have "dless (accepted_quality st (ps ! 0)) (accepted_quality st (ps ! i))"
      using i(4) by simp
    then show ?thesis
      using z a i(1) by simp
  qed
  show ?thesis
    using 1 2 3 by blast
qed

theorem best_match_selection_witness:
  "vmod_best_match (Some ''image/png'') (Some ''text/html,application/xml'') = ''text/html''"
proof -
  define st where "st = parse_accept_header (Some ''image/png'')"
  have 1: "''image/png'' \<noteq> []"
    by simp
  have 2: "parse_preferred_types (Some ''text/html,application/xml'') MAX_MEDIA_TYPES
      = [''text/html'', ''application/xml'']"
    by code_simp
  have 3: "[''text/html'', ''application/xml''] \<noteq> []"
    by simp
  have 4: "accepted_quality (parse_accept_header (Some ''image/png'')) ''text/html'' = Num 0"
    "accepted_quality (parse_accept_header (Some ''image/png'')) ''application/xml'' = Num 0"
    by code_simp+
  have 5: "\<forall>j<length [''text/html'', ''application/xml''].
      \<not> dless (Num 0) (accepted_quality st ([''text/html'', ''application/xml''] ! j))"
    unfolding st_def by (auto simp: less_Suc_eq 4 dless_irrefl)
  show ?thesis
    using best_match_selection [OF 1 2 3 st_def] 4 5 by (simp add: st_def)
qed

section \<open>The prefix buffer of the quality lookup\<close>

lemma tolower_eq_slash: "tolower c = CHR ''/'' \<longleftrightarrow> c = CHR ''/''"
proof
  assume a: "tolower c = CHR ''/''"
  show "c = CHR ''/''"
  proof (cases "65 \<le> (of_char c :: nat) \<and> (of_char c :: nat) \<le> 90")
    case True
    then have "char_of ((of_char c :: nat) + 32) = CHR ''/''"
      using a by (simp add: tolower_def)
    then have "(of_char (char_of ((of_char c :: nat) + 32)) :: nat) = of_char CHR ''/''"
      by simp
    then show ?thesis
      using True by simp
  next
    case False
    then show ?thesis
      using a by (auto simp: tolower_def Let_def)
  qed
next
  assume "c = CHR ''/''"
  then show "tolower c = CHR ''/''"
    by (simp add: tolower_def)
qed

lemma strchr_map_tolower: "strchr (map tolower m) (CHR ''/'') = strchr m (CHR ''/'')"
proof -
  have "takeWhile (\<lambda>x. x \<noteq> CHR ''/'') (map tolower m)
      = map tolower (takeWhile (\<lambda>x. x \<noteq> CHR ''/'') m)"
    by (simp add: takeWhile_map comp_def tolower_eq_slash)
  moreover have "CHR ''/'' \<in> set (map tolower m) \<longleftrightarrow> CHR ''/'' \<in> set m"
    by (induction m) (simp_all add: tolower_eq_slash eq_commute [of "CHR ''/''"])
  ultimately show ?thesis
    by (simp add: strchr_def)
qed

text \<open>
  Claim C10. Let the concrete type have its first \<open>/\<close> at offset \<open>len\<close> and let no header
  entry equal it. When \<open>len\<close> is 254 or more the prefix buffer is left empty and the lookup
  consults the \<open>*/*\<close> entries alone, even when the header holds the \<open>main/*\<close> entry of that
  type: the result is the \<open>*/*\<close> quality (that of the last such entry, when it is
  \<open>>= 0.0\<close>) and otherwise 0.0. When \<open>len\<close> is below 254 the \<open>main/*\<close> entries take part
  and come first.
\<close>

theorem prefix_buffer_limit:
  assumes "h \<noteq> []" and "strchr m (CHR ''/'') = Some len"
    and "\<forall>e\<in>set (parse_accept_header (Some h)). type e \<noteq> map tolower m"
  shows "vmod_quality (Some h) (Some m) =
    resolve_wildcards
      (if len < 254
       then last_quality (\<lambda>e. type e \<noteq> ''*/*'' \<and> type e = map tolower (take len m) @ ''/*'')
              (parse_accept_header (Some h)) (Num (- 1))
       else Num (- 1))
      (last_quality (\<lambda>e. type e = ''*/*'') (parse_accept_header (Some h)) (Num (- 1)))"
proof -
  have m: "m \<noteq> []"
    using assms(2) by (auto simp: strchr_def)
  have 1: "vmod_quality (Some h) (Some m)
      = get_quality_for_type (parse_accept_header (Some h)) (map tolower m)"
    using assms(1) m by (simp add: vmod_quality_def absent_def)
  have 2: "type_prefix (map tolower m)
      = (if len < 254 then map tolower (take len m) @ ''/*'' else [])"
    using assms(2) by (simp add: type_prefix_def strchr_map_tolower take_map)
  show ?thesis
    unfolding 1 get_quality_for_type_wildcards [OF assms(3)] 2
    by (cases "len < 254") (simp_all add: last_quality_def)
qed

theorem prefix_buffer_limit_witness:
  "vmod_quality (Some (replicate 254 CHR ''a'' @ ''/*;q=0.5, */*;q=0.25''))
     (Some (replicate 254 CHR ''a'' @ ''/html'')) = Num (1 / 4)
   \<and> vmod_quality (Some (replicate 253 CHR ''a'' @ ''/*;q=0.5, */*;q=0.25''))
     (Some (replicate 253 CHR ''a'' @ ''/html'')) = Num (1 / 2)"
proof -
  let ?h = "replicate 254 CHR ''a'' @ ''/*;q=0.5, */*;q=0.25''"
  let ?m = "replicate 254 CHR ''a'' @ ''/html''"
  let ?h' = "replicate 253 CHR ''a'' @ ''/*;q=0.5, */*;q=0.25''"
  let ?m' = "replicate 253 CHR ''a'' @ ''/html''"
  have p: "parse_accept_header (Some ?h)
      = [\<lparr>type = replicate 254 CHR ''a'' @ ''/*'', quality = Num (1 / 2)\<rparr>,
         \<lparr>type = ''*/*'', quality = Num (1 / 4)\<rparr>]"
    by code_simp
  have p': "parse_accept_header (Some ?h')
      = [\<lparr>type = replicate 253 CHR ''a'' @ ''/*'', quality = Num (1 / 2)\<rparr>,
         \<lparr>type = ''*/*'', quality = Num (1 / 4)\<rparr>]"
    by code_simp
  have 1: "?h \<noteq> []" "?h' \<noteq> []"
    by simp_all
  have 2: "strchr ?m (CHR ''/'') = Some 254" "strchr ?m' (CHR ''/'') = Some 253"
    by code_simp+
  have 3: "\<forall>e\<in>set (parse_accept_header (Some ?h)). type e \<noteq> map tolower ?m"
    unfolding p by code_simp
  have 6: "\<forall>e\<in>set (parse_accept_header (Some ?h')). type e \<noteq> map tolower ?m'"
    unfolding p' by code_simp
  have 4: "resolve_wildcards (Num (- 1)) (Num (1 / 4)) = Num (1 / 4)"
    "resolve_wildcards (Num (1 / 2)) (Num (1 / 4)) = Num (1 / 2)"
    by code_simp+
  have 5: "map tolower (take 253 ?m') @ ''/*'' = replicate 253 CHR ''a'' @ ''/*''"
    "replicate 253 CHR ''a'' @ ''/*'' \<noteq> ''*/*''"
    by code_simp+
  have a: "vmod_quality (Some ?h) (Some ?m) = Num (1 / 4)"
    using prefix_buffer_limit [OF 1(1) 2(1) 3] unfolding p by (simp add: last_quality_def 4)
  have b: "vmod_quality (Some ?h') (Some ?m') = Num (1 / 2)"
    using prefix_buffer_limit [OF 1(2) 2(2) 6] unfolding p' 5(1)
    by (simp add: last_quality_def 4 5(2))
  show ?thesis
    using a b by simp
qed

section \<open>The first preferred type\<close>

lemma split_commas_unfold:
  "split_commas p = takeWhile (\<lambda>c. c \<noteq> CHR '','') p
     # (case dropWhile (\<lambda>c. c \<noteq> CHR '','') p of [] \<Rightarrow> [] | c # r \<Rightarrow> split_commas r)"
proof (induction p)
  case Nil
  show ?case by simp
next
  case (Cons a p)
  show ?case
  proof (cases "a = CHR '',''")
    case True
    then show ?thesis by simp
  next
    case False
    then show ?thesis
      by (subst split_commas.simps) (simp add: Cons.IH)
  qed
qed

lemma isspace_not_comma: "isspace c \<Longrightarrow> c \<noteq> CHR '',''"
  by (auto simp: isspace_def)

lemma trim_trailing_Nil [simp]: "trim_trailing [] = []"
  by (simp add: trim_trailing_def)

lemma preferred_elements_step:
  assumes "skip_ws p \<noteq> []"
  shows "preferred_elements p =
    (let tok = trim_trailing (takeWhile (\<lambda>c. c \<noteq> CHR '','') (skip_ws p))
     in (if tok \<noteq> [] then [map tolower tok] else [])
        @ (case dropWhile (\<lambda>c. c \<noteq> CHR '','') (skip_ws p) of
             [] \<Rightarrow> [] | c # r \<Rightarrow> preferred_elements r))"
proof -
  define ws where "ws = takeWhile isspace p"
  define p1 where "p1 = skip_ws p"
  have p: "p = ws @ p1"
    by (simp add: ws_def p1_def skip_ws_def)
  have ws: "\<forall>c\<in>set ws. isspace c" "\<forall>c\<in>set ws. c \<noteq> CHR '',''"
    using isspace_not_comma by (auto simp: ws_def dest: set_takeWhileD)
  have h: "\<not> isspace (hd p1)"
    using assms hd_dropWhile [of isspace p] by (simp add: p1_def skip_ws_def)
  define tok0 where "tok0 = takeWhile (\<lambda>c. c \<noteq> CHR '','') p1"
  have 1: "takeWhile (\<lambda>c. c \<noteq> CHR '','') p = ws @ tok0"
    using ws(2) by (simp add: p tok0_def takeWhile_append2)
  have 2: "dropWhile (\<lambda>c. c \<noteq> CHR '','') p = dropWhile (\<lambda>c. c \<noteq> CHR '','') p1"
    using ws(2) by (simp add: p dropWhile_append2)
  have "skip_ws (ws @ tok0) = skip_ws tok0"
    using ws(1) by (simp add: skip_ws_def dropWhile_append2)
  moreover have "skip_ws tok0 = tok0"
  proof (cases tok0)
    case Nil
    then show ?thesis by (simp add: skip_ws_def)
  next
    case (Cons a t)
    then have "hd tok0 = hd p1"
      unfolding tok0_def using assms by (cases p1) (auto simp: p1_def split: if_splits)
    then show ?thesis
      using h Cons by (simp add: skip_ws_def)
  qed
  ultimately have 3: "trim (ws @ tok0) = trim_trailing tok0"
    by (simp add: trim_def)
  show ?thesis
  proof (cases "dropWhile (\<lambda>c. c \<noteq> CHR '','') p1")
    case Nil
    have "split_commas p = [ws @ tok0]"
      by (subst split_commas_unfold) (simp add: 1 2 Nil)
    then show ?thesis
      unfolding preferred_elements_def Let_def p1_def [symmetric] tok0_def [symmetric] Nil
      by (simp add: 3)
  next
    case (Cons c r)
    have "split_commas p = (ws @ tok0) # split_commas r"
      by (subst split_commas_unfold) (simp add: 1 2 Cons)
    then show ?thesis
      unfolding preferred_elements_def Let_def p1_def [symmetric] tok0_def [symmetric] Cons
      by (simp add: 3)
  qed
qed

lemma preferred_elements_blank:
  assumes "skip_ws p = []"
  shows "preferred_elements p = []"
proof -
  have a: "\<forall>c\<in>set p. isspace c"
    using assms by (simp add: skip_ws_def)
  then have "\<forall>c\<in>set p. c \<noteq> CHR '',''"
    using isspace_not_comma by blast
  then have t: "takeWhile (\<lambda>c. c \<noteq> CHR '','') p = p"
    and d: "dropWhile (\<lambda>c. c \<noteq> CHR '','') p = []"
    by simp_all
  have "split_commas p = [p]"
    by (subst split_commas_unfold) (simp add: t d)
  then show ?thesis
    using assms by (simp add: preferred_elements_def trim_def)
qed

lemma parse_preferred_loop_elements:
  "length types \<le> n \<Longrightarrow>
     parse_preferred_loop types p n = take n (types @ preferred_elements p)"
proof (induction types p n rule: parse_preferred_loop.induct)
  case (1 types p max_types)
  show ?case
  proof (cases "p \<noteq> [] \<and> length types < max_types")
    case False
    then have "parse_preferred_loop types p max_types = types"
      using parse_preferred_loop.simps [of types p max_types] by auto
    moreover have "take max_types (types @ preferred_elements p) = types"
    proof (cases "p = []")
      case True
      then show ?thesis
        using "1.prems" preferred_elements_blank [of p] by (simp add: skip_ws_def)
    next
      case False
      then show ?thesis
        using \<open>\<not> (p \<noteq> [] \<and> length types < max_types)\<close> "1.prems" by simp
    qed
    ultimately show ?thesis by simp
  next
    case True
    show ?thesis
    proof (cases "skip_ws p = []")
      case blank: True
      then have "parse_preferred_loop types p max_types = types"
        using True parse_preferred_loop.simps [of types p max_types] by (simp add: Let_def)
      then show ?thesis
        using "1.prems" preferred_elements_blank [OF blank] by simp
    next
      case nonblank: False
      define p2 where "p2 = dropWhile (\<lambda>c. c \<noteq> CHR '','') (skip_ws p)"
      define tok where "tok = trim_trailing (takeWhile (\<lambda>c. c \<noteq> CHR '','') (skip_ws p))"
      define types' where "types' = (if tok \<noteq> [] then types @ [map tolower tok] else types)"
      define p3 where "p3 = (case p2 of [] \<Rightarrow> p2 | c # r \<Rightarrow> r)"
      have p3: "(case dropWhile (\<lambda>c. c \<noteq> CHR '','') (skip_ws p) of
             [] \<Rightarrow> dropWhile (\<lambda>c. c \<noteq> CHR '','') (skip_ws p) | c # r \<Rightarrow> r) = p3"
        unfolding p3_def p2_def by (simp split: list.splits)
      have eq: "parse_preferred_loop types p max_types = parse_preferred_loop types' p3 max_types"
        unfolding types'_def tok_def p3 [symmetric]
        using True nonblank parse_preferred_loop.simps [of types p max_types]
        by (simp add: Let_def)
      have len: "length types' \<le> max_types"
        using True by (simp add: types'_def)
      have ih: "parse_preferred_loop types' p3 max_types
          = take max_types (types' @ preferred_elements p3)"
        using "1.IH" [OF True refl nonblank p2_def [unfolded] tok_def types'_def p3_def len] .
      have "(case p2 of [] \<Rightarrow> [] | c # r \<Rightarrow> preferred_elements r) = preferred_elements p3"
        using preferred_elements_blank [of "[]"]
        by (cases p2) (simp_all add: p3_def skip_ws_def)
      then have "types @ preferred_elements p = types' @ preferred_elements p3"
        using preferred_elements_step [OF nonblank]
        by (simp add: Let_def p2_def [symmetric] tok_def [symmetric] types'_def)
      then show ?thesis
        using eq ih by simp
    qed
  qed
qed

text \<open>
  Claim C5, as amended. When the header is null or empty and the preferred argument is
  non-empty, \<open>vmod_filter\<close> returns the first comma-separated element of the preferred
  argument that is not empty once its surrounding white space is removed, trimmed and in
  lower case, and the empty string when every element is empty.
\<close>

theorem filter_without_header:
  assumes "absent header" and "pref \<noteq> []"
  shows "vmod_filter header (Some pref) =
    (case preferred_elements pref of [] \<Rightarrow> [] | first # _ \<Rightarrow> first)"
proof -
  have "parse_preferred_types (Some pref) MAX_MEDIA_TYPES
      = take MAX_MEDIA_TYPES (preferred_elements pref)"
    using assms(2) parse_preferred_loop_elements [of "[]" MAX_MEDIA_TYPES pref]
    by (simp add: parse_preferred_types_def)
  moreover have "(case take MAX_MEDIA_TYPES xs of [] \<Rightarrow> [] | first # _ \<Rightarrow> first)
      = (case xs of [] \<Rightarrow> [] | first # _ \<Rightarrow> first)" for xs :: "string list"
    by (cases xs) (simp_all add: MAX_MEDIA_TYPES_def)
  ultimately show ?thesis
    using assms by (simp add: vmod_filter_def absent_def)
qed

theorem filter_without_header_witness:
  "vmod_filter None (Some '' , Text/HTML ,a/b'') = ''text/html''"
proof -
  have 1: "absent None"
    by (simp add: absent_def)
  have 2: "preferred_elements '' , Text/HTML ,a/b'' = [''text/html'', ''a/b'']"
    by code_simp
  show ?thesis
    using filter_without_header [OF 1, of "'' , Text/HTML ,a/b''"] by (simp add: 2)
qed

text \<open>
  Claim C5 as stated fails: the result is not the element as written. \<open>Text/HTML\<close> comes
  back in lower case, \<open> a/b \<close> without its blanks, and a preferred argument of a lone
  comma gives the empty string.
\<close>

theorem filter_verbatim_counterexample:
  "vmod_filter None (Some ''Text/HTML'') = ''text/html''
   \<and> takeWhile (\<lambda>c. c \<noteq> CHR '','') ''Text/HTML'' = ''Text/HTML''
   \<and> vmod_filter None (Some '' a/b '') = ''a/b''
   \<and> vmod_filter None (Some '','') = []"
  by code_simp

section \<open>Reading back a formatted quality\<close>

lemma isdigit_facts:
  assumes "isdigit d"
  shows "\<not> isspace d" "d \<noteq> CHR ''-''" "d \<noteq> CHR ''+''" "d \<noteq> CHR ''.''" "tolower d = d"
    "d \<noteq> CHR ''i''" "d \<noteq> CHR ''n''" "\<not> is_sep d" "d \<noteq> CHR ''=''"
  using assms by (auto simp: isdigit_def isspace_def tolower_def is_sep_def Let_def)

lemma not_digit_facts: "\<not> isdigit (CHR ''.'')" "\<not> isdigit (CHR '','')"
  by (simp_all add: isdigit_def)

lemma ci_prefix_Cons:
  "ci_prefix (w # ws) (c # cs) \<Longrightarrow> tolower c = w"
  by (auto simp: ci_prefix_def)

lemma strtod_special_digit:
  assumes "isdigit d"
  shows "strtod_special (d # p) = None"
proof -
  have "\<not> ci_prefix ''infinity'' (d # p)" "\<not> ci_prefix ''inf'' (d # p)" "\<not> ci_prefix ''nan'' (d # p)"
    using isdigit_facts(5,6,7) [OF assms] by (auto dest!: ci_prefix_Cons)
  then show ?thesis
    by (simp add: strtod_special_def)
qed

lemma strtod_exponent_end:
  assumes "T = [] \<or> hd T = CHR '',''"
  shows "strtod_exponent (CHR ''e'') T = (0, T)"
proof (cases T)
  case Nil
  then show ?thesis by (simp add: strtod_exponent_def)
next
  case (Cons c r)
  then have "c = CHR '',''" using assms by simp
  then have "tolower c \<noteq> CHR ''e''"
    by (simp add: tolower_def)
  then show ?thesis
    using Cons by (simp add: strtod_exponent_def)
qed

lemma takeWhile_digit_end:
  assumes "T = [] \<or> hd T = CHR '',''"
  shows "takeWhile isdigit T = []" "dropWhile isdigit T = T"
  using assms not_digit_facts(2) by (cases T; simp)+

lemma strtod_decimal_d_dot_d:
  assumes "isdigit d1" and "isdigit d2" and "T = [] \<or> hd T = CHR '',''"
  shows "strtod_decimal (d1 # CHR ''.'' # d2 # T)
    = Some (scale 10 (digits_val 10 [d1, d2]) (- 1), T)"
  unfolding strtod_decimal_def strtod_digits_def
  using assms(1,2) not_digit_facts(1)
  by (simp add: Let_def takeWhile_digit_end [OF assms(3)] strtod_exponent_end [OF assms(3)])

lemma strtod_number_d_dot_d:
  assumes "isdigit d1" and "isdigit d2" and "T = [] \<or> hd T = CHR '',''"
  shows "strtod_number (d1 # CHR ''.'' # d2 # T)
    = Some (scale 10 (digits_val 10 [d1, d2]) (- 1), T)"
proof -
  have "tolower (CHR ''.'') \<noteq> CHR ''x''"
    by (simp add: tolower_def)
  then show ?thesis
    by (simp add: strtod_number_def strtod_decimal_d_dot_d [OF assms])
qed

lemma strtod_d_dot_d:
  assumes "isdigit d1" and "isdigit d2" and "T = [] \<or> hd T = CHR '',''"
  shows "strtod (d1 # CHR ''.'' # d2 # T) = (scale 10 (digits_val 10 [d1, d2]) (- 1), T)"
  unfolding strtod_def strtod_conv_def
  using isdigit_facts(1,2,3) [OF assms(1)]
  by (simp add: skip_ws_def Let_def strtod_special_digit [OF assms(1)]
      strtod_number_d_dot_d [OF assms])

lemma strtod_minus_d_dot_d:
  assumes "isdigit d1" and "isdigit d2" and "T = [] \<or> hd T = CHR '',''"
  shows "strtod (CHR ''-'' # d1 # CHR ''.'' # d2 # T)
    = (dneg (scale 10 (digits_val 10 [d1, d2]) (- 1)), T)"
proof -
  have "\<not> isspace (CHR ''-'')"
    by (simp add: isspace_def)
  then show ?thesis
    unfolding strtod_def strtod_conv_def
    by (simp add: skip_ws_def Let_def strtod_special_digit [OF assms(1)]
        strtod_number_d_dot_d [OF assms])
qed

lemma isdigit_digit_char:
  assumes "0 \<le> k" and "k \<le> 9"
  shows "isdigit (digit_char k)"
proof -
  have "(of_char (char_of (48 + k)) :: int) = (48 + k) mod 256"
    by (rule of_char_of)
  then have "(of_char (digit_char k) :: int) = 48 + k"
    using assms by (simp add: digit_char_def)
  moreover have "int (of_char (digit_char k)) = (of_char (digit_char k) :: int)"
    by (rule of_nat_of_char)
  ultimately have "int (of_char (digit_char k)) = 48 + k"
    by simp
  then show ?thesis
    using assms by (simp add: isdigit_def Let_def)
qed

lemma div_less_10:
  assumes "0 < (b :: int)" and "x < 10 * b"
  shows "x div b < 10"
proof (rule ccontr)
  assume "\<not> x div b < 10"
  then have "10 \<le> x div b"
    by simp
  then have "b * 10 \<le> b * (x div b)"
    using assms(1) by (simp add: mult_left_mono)
  moreover have "b * (x div b) + x mod b = x"
    by simp
  moreover have "0 \<le> x mod b"
    using assms(1) by simp
  ultimately show False
    using assms(2) by linarith
qed

lemma round_half_even_range:
  assumes "0 < den" and "0 \<le> num" and "num < den"
  shows "0 \<le> round_half_even (num * 10) den" and "round_half_even (num * 10) den \<le> 10"
proof -
  have "0 \<le> num * 10 div den"
    using assms by (simp add: pos_imp_zdiv_nonneg_iff)
  moreover have "num * 10 div den < 10"
    using assms by (intro div_less_10) simp_all
  ultimately show "0 \<le> round_half_even (num * 10) den"
    and "round_half_even (num * 10) den \<le> 10"
    by (simp_all add: round_half_even_def Let_def)
qed

lemma quotient_of_unit:
  assumes "quotient_of r = (a, b)" and "0 \<le> r" and "r < 1"
  shows "0 \<le> a" and "a < b" and "0 < b"
proof -
  show b: "0 < b"
    using assms(1) by (rule quotient_of_denom_pos)
  have e: "r = of_int a / of_int b"
    using assms(1) by (rule quotient_of_div)
  show "0 \<le> a"
    using assms(2) b unfolding e by (simp add: zero_le_divide_iff)
  show "a < b"
    using assms(3) b unfolding e by simp
qed

lemma fixed_1_shape:
  assumes "0 \<le> r" and "r < 1"
  shows "\<exists>d1 d2. isdigit d1 \<and> isdigit d2 \<and> fixed_1 r = [d1, CHR ''.'', d2]"
proof -
  obtain a b where q: "quotient_of r = (a, b)"
    by (cases "quotient_of r") auto
  define n where "n = round_half_even (a * 10) b"
  have n: "0 \<le> n" "n \<le> 10"
    unfolding n_def
    using round_half_even_range [OF quotient_of_unit(3,1,2) [OF q assms]] by simp_all
  have d: "0 \<le> n div 10" "n div 10 \<le> 9" "0 \<le> n mod 10" "n mod 10 \<le> 9"
    using n by simp_all
  have "show_int (n div 10) = [digit_char (n div 10)]"
    using d by (subst show_int.simps) simp
  then have "fixed_1 r = [digit_char (n div 10), CHR ''.'', digit_char (n mod 10)]"
    by (simp add: fixed_1_def q n_def Let_def)
  moreover have "isdigit (digit_char (n div 10))" "isdigit (digit_char (n mod 10))"
    using d by (simp_all add: isdigit_digit_char)
  ultimately show ?thesis by blast
qed

lemma clamped_below_one:
  assumes "clamped q" and "dless q (Num 1)"
  shows "q = NegZero \<or> (\<exists>r. q = Num r \<and> 0 \<le> r \<and> r < 1)"
  using assms
  by (cases q) (auto simp: clamped_def clamp_quality_def dless_def Let_def split: if_splits)

lemma printf_1f_shape:
  assumes "clamped q" and "dless q (Num 1)"
  shows "\<exists>d1 d2. isdigit d1 \<and> isdigit d2
    \<and> (printf_1f q = [d1, CHR ''.'', d2] \<or> printf_1f q = [CHR ''-'', d1, CHR ''.'', d2])"
proof -
  from clamped_below_one [OF assms] show ?thesis
  proof
    assume "q = NegZero"
    moreover have "isdigit (CHR ''0'')"
      by (simp add: isdigit_def)
    ultimately show ?thesis by auto
  next
    assume "\<exists>r. q = Num r \<and> 0 \<le> r \<and> r < 1"
    then obtain r where r: "q = Num r" "0 \<le> r" "r < 1"
      by blast
    then show ?thesis
      using fixed_1_shape [OF r(2,3)] by auto
  qed
qed

lemma strtod_printf_1f_append:
  assumes "clamped q" and "dless q (Num 1)" and "T = [] \<or> hd T = CHR '',''"
  shows "strtod (printf_1f q @ T) = (fst (strtod (printf_1f q)), T)"
proof -
  obtain d1 d2 where d: "isdigit d1" "isdigit d2"
    "printf_1f q = [d1, CHR ''.'', d2] \<or> printf_1f q = [CHR ''-'', d1, CHR ''.'', d2]"
    using printf_1f_shape [OF assms(1,2)] by blast
  from d(3) show ?thesis
  proof
    assume p: "printf_1f q = [d1, CHR ''.'', d2]"
    show ?thesis
      using strtod_d_dot_d [OF d(1,2) assms(3)] strtod_d_dot_d [OF d(1,2), of "[]"]
      by (simp add: p)
  next
    assume p: "printf_1f q = [CHR ''-'', d1, CHR ''.'', d2]"
    show ?thesis
      using strtod_minus_d_dot_d [OF d(1,2) assms(3)] strtod_minus_d_dot_d [OF d(1,2), of "[]"]
      by (simp add: p)
  qed
qed

lemma printf_1f_head:
  assumes "clamped q" and "dless q (Num 1)"
  shows "printf_1f q \<noteq> []" and "\<not> isspace (hd (printf_1f q))"
proof -
  obtain d1 d2 where d: "isdigit d1" "isdigit d2"
    "printf_1f q = [d1, CHR ''.'', d2] \<or> printf_1f q = [CHR ''-'', d1, CHR ''.'', d2]"
    using printf_1f_shape [OF assms(1,2)] by blast
  have m: "\<not> isspace (CHR ''-'')"
    by (simp add: isspace_def)
  show "printf_1f q \<noteq> []"
    using d(3) by auto
  show "\<not> isspace (hd (printf_1f q))"
    using d(3) isdigit_facts(1) [OF d(1)] m by auto
qed

section \<open>What the parser returns\<close>

lemma tolower_cases:
  "tolower c = c \<or> (97 \<le> (of_char (tolower c) :: nat) \<and> (of_char (tolower c) :: nat) \<le> 122)"
proof (cases "65 \<le> (of_char c :: nat) \<and> (of_char c :: nat) \<le> 90")
  case True
  then have "tolower c = char_of ((of_char c :: nat) + 32)"
    by (simp add: tolower_def)
  then have "(of_char (tolower c) :: nat) = ((of_char c :: nat) + 32) mod 256"
    by simp
  then show ?thesis
    using True by simp
next
  case False
  then show ?thesis
    by (auto simp: tolower_def Let_def)
qed

lemma tolower_idem: "tolower (tolower c) = tolower c"
proof (cases "tolower c = c")
  case True
  then show ?thesis by simp
next
  case False
  then have "97 \<le> (of_char (tolower c) :: nat)"
    using tolower_cases [of c] by simp
  then show ?thesis
    by (simp add: tolower_def [of "tolower c"])
qed

lemma is_sep_tolower: "is_sep (tolower c) \<longleftrightarrow> is_sep c"
  using tolower_cases [of c] by (auto simp: is_sep_def tolower_def [of "CHR '';''"] tolower_def [of "CHR '',''"])

lemma isspace_tolower: "isspace (tolower c) \<longleftrightarrow> isspace c"
proof (cases "tolower c = c")
  case True
  then show ?thesis by simp
next
  case False
  then have "97 \<le> (of_char (tolower c) :: nat)"
    using tolower_cases [of c] by simp
  moreover have "65 \<le> (of_char c :: nat)"
    using False by (auto simp: tolower_def Let_def split: if_splits)
  ultimately show ?thesis
    by (simp add: isspace_def)
qed

lemma trim_trailing_prefix: "\<exists>r. s = trim_trailing s @ r"
proof -
  have "rev (dropWhile isspace (rev s)) @ rev (takeWhile isspace (rev s))
      = rev (takeWhile isspace (rev s) @ dropWhile isspace (rev s))"
    by (simp only: rev_append)
  also have "\<dots> = s"
    by (simp only: takeWhile_dropWhile_id rev_rev_ident)
  finally have "s = trim_trailing s @ rev (takeWhile isspace (rev s))"
    by (simp only: trim_trailing_def)
  then show ?thesis ..
qed

lemma trim_trailing_last:
  assumes "trim_trailing s \<noteq> []"
  shows "\<not> isspace (last (trim_trailing s))"
proof -
  have "dropWhile isspace (rev s) \<noteq> []"
    using assms by (simp add: trim_trailing_def)
  then have "\<not> isspace (hd (dropWhile isspace (rev s)))"
    by (rule hd_dropWhile)
  then show ?thesis
    using \<open>dropWhile isspace (rev s) \<noteq> []\<close> by (simp add: trim_trailing_def last_rev)
qed

lemma clean_type_token:
  assumes "trim_trailing (takeWhile (\<lambda>c. \<not> is_sep c) (skip_ws p)) \<noteq> []"
  shows "clean_type (map tolower (trim_trailing (takeWhile (\<lambda>c. \<not> is_sep c) (skip_ws p))))"
proof -
  define tok where "tok = takeWhile (\<lambda>c. \<not> is_sep c) (skip_ws p)"
  define t where "t = trim_trailing tok"
  have t: "t \<noteq> []"
    using assms by (simp add: t_def tok_def)
  obtain r where r: "tok = t @ r"
    using trim_trailing_prefix [of tok] by (auto simp: t_def)
  have "\<forall>c\<in>set tok. \<not> is_sep c"
    unfolding tok_def by (auto dest: set_takeWhileD)
  then have 1: "\<forall>c\<in>set t. \<not> is_sep c"
    using r by auto
  have tok: "tok \<noteq> []"
    using t r by simp
  then have "skip_ws p \<noteq> []"
    by (auto simp: tok_def)
  then have "\<not> isspace (hd (skip_ws p))"
    unfolding skip_ws_def by (rule hd_dropWhile)
  moreover have "hd (skip_ws p) = hd tok"
    using tok unfolding tok_def by (cases "skip_ws p") (auto split: if_splits)
  moreover have "hd tok = hd t"
    using t r by simp
  ultimately have 2: "\<not> isspace (hd t)"
    by simp
  have 3: "\<not> isspace (last t)"
    using t trim_trailing_last [of tok] by (simp add: t_def)
  have "clean_type (map tolower t)"
    unfolding clean_type_def
    using t 1 2 3
    by (simp add: list_all_iff is_sep_tolower isspace_tolower hd_map last_map tolower_idem)
  then show ?thesis
    by (simp add: t_def tok_def)
qed

lemma clamped_clamp_quality: "clamped (clamp_quality v)"
  by (cases v) (auto simp: clamped_def clamp_quality_def dless_def Let_def)

lemma clamped_one: "clamped (Num 1)"
  by (simp add: clamped_def clamp_quality_def dless_def)

lemma parse_media_type_good:
  assumes "parse_media_type p = Some (p', ty, q)"
  shows "clean_type ty" and "clamped q"
proof -
  show "clamped q"
    using parse_media_type_quality [OF assms] clamped_clamp_quality clamped_one by auto
  have "trim_trailing (takeWhile (\<lambda>c. \<not> is_sep c) (skip_ws p)) \<noteq> []"
    and "ty = map tolower (trim_trailing (takeWhile (\<lambda>c. \<not> is_sep c) (skip_ws p)))"
    using assms unfolding parse_media_type_def
    by (auto simp: Let_def split: if_splits prod.splits)
  then show "clean_type ty"
    using clean_type_token by simp
qed

lemma parse_upto_good:
  "e \<in> set (parse_upto n p) \<Longrightarrow> clean_type (type e) \<and> clamped (quality e)"
proof (induction n arbitrary: p)
  case 0
  then show ?case by simp
next
  case (Suc n)
  show ?case
  proof (cases "parse_media_type p")
    case None
    then show ?thesis using Suc.prems by (simp split: if_splits)
  next
    case (Some r)
    obtain p' ty q where r: "r = (p', ty, q)"
      by (cases r) auto
    have "e = \<lparr>type = ty, quality = q\<rparr> \<or> e \<in> set (parse_upto n p')"
      using Suc.prems Some r by (simp split: if_splits)
    then show ?thesis
      using parse_media_type_good [OF Some [unfolded r]] Suc.IH [of p'] by auto
  qed
qed

lemma length_parse_upto: "length (parse_upto n p) \<le> n"
  by (induction n arbitrary: p) (auto split: option.splits)

lemma parse_accept_header_upto:
  "parse_accept_header header =
     (case header of None \<Rightarrow> [] | Some h \<Rightarrow> parse_upto MAX_MEDIA_TYPES h)"
proof (cases header)
  case None
  then show ?thesis by (simp add: parse_accept_header_def)
next
  case (Some h)
  have "parse_upto n [] = []" for n
    by (cases n) simp_all
  then show ?thesis
    using Some by (simp add: parse_accept_header_def parse_entries_upto)
qed

section \<open>Parsing a built string\<close>

lemma build_entries_pos: "0 < i \<Longrightarrow> build_entries i es = more_entries es"
  by (induction es arbitrary: i) (simp_all add: more_entries_def entry_string_def)

lemma build_entries_first: "build_entries 0 (e # es) = entry_string e @ more_entries es"
  by (simp add: build_entries_pos entry_string_def)

lemma more_entries_head: "more_entries es = [] \<or> hd (more_entries es) = CHR '',''"
  by (cases es) (simp_all add: more_entries_def)

lemma parse_param_quality_text:
  assumes "clamped q" and "dless q (Num 1)" and "fst (strtod (printf_1f q)) = q"
    and "T = [] \<or> hd T = CHR '',''"
  shows "parse_param (''q='' @ printf_1f q @ T) qual = (T, q)"
proof -
  have q: "\<not> isspace (CHR ''q'')" "\<not> is_sep (CHR ''q'')" "tolower (CHR ''q'') = CHR ''q''"
    by (simp_all add: isspace_def is_sep_def tolower_def)
  have 1: "skip_ws (''q='' @ printf_1f q @ T) = ''q='' @ printf_1f q @ T"
    using q(1) by (simp add: skip_ws_def)
  have 2: "takeWhile (\<lambda>c. c \<noteq> CHR ''='' \<and> \<not> is_sep c) (''q='' @ printf_1f q @ T) = ''q''"
    "dropWhile (\<lambda>c. c \<noteq> CHR ''='' \<and> \<not> is_sep c) (''q='' @ printf_1f q @ T)
       = CHR ''='' # printf_1f q @ T"
    using q(2) by simp_all
  have "skip_ws (printf_1f q @ T) = printf_1f q @ T"
    using printf_1f_head [OF assms(1,2)] by (intro skip_ws_id) simp_all
  then have 3: "strtod (skip_ws (printf_1f q @ T)) = (q, T)"
    using strtod_printf_1f_append [OF assms(1,2,4)] assms(3) by simp
  have 4: "clamp_quality q = q"
    using assms(1) by (simp add: clamped_def)
  show ?thesis
    unfolding parse_param_def Let_def 1 2 using q(3) by (simp add: 3 4)
qed

lemma parse_params_entry:
  assumes "clamped q" and "survives_format q" and "T = [] \<or> hd T = CHR '',''"
  shows "parse_params ((if dless q (Num 1) then '';q='' @ printf_1f q else []) @ T) (Num 1)
    = (T, q)"
proof -
  have stop: "parse_params T x = (T, x)" for x
    using assms(3) by (intro parse_params_stop) auto
  show ?thesis
  proof (cases "dless q (Num 1)")
    case True
    then have "fst (strtod (printf_1f q)) = q"
      using assms(2) by (auto simp: survives_format_def dless_irrefl)
    then have "parse_param (''q='' @ printf_1f q @ T) (Num 1) = (T, q)"
      using assms(1,3) True by (intro parse_param_quality_text)
    then show ?thesis
      using True stop [of q]
        parse_params.simps [of "CHR '';'' # ''q='' @ printf_1f q @ T" "Num 1"]
      by simp
  next
    case False
    then have "q = Num 1"
      using assms(2) by (simp add: survives_format_def)
    then show ?thesis
      using False stop [of "Num 1"] by simp
  qed
qed

lemma parse_media_type_entry:
  assumes "good_entry e" and "T = [] \<or> hd T = CHR '',''"
  shows "parse_media_type (entry_string e @ T) = Some (drop 1 T, type e, quality e)"
proof -
  define Q where "Q = (if dless (quality e) (Num 1) then '';q='' @ printf_1f (quality e) else [])"
  have c: "type e \<noteq> []" "\<forall>c\<in>set (type e). \<not> is_sep c" "\<not> isspace (hd (type e))"
    "\<not> isspace (last (type e))" "map tolower (type e) = type e"
    using assms(1) by (simp_all add: good_entry_def clean_type_def list_all_iff)
  have es: "entry_string e @ T = type e @ Q @ T"
    by (simp add: entry_string_def Q_def)
  have 1: "skip_ws (type e @ Q @ T) = type e @ Q @ T"
    using c(1,3) by (intro skip_ws_id) simp_all
  have "Q @ T = [] \<or> \<not> \<not> is_sep (hd (Q @ T))"
    using assms(2) by (auto simp: Q_def is_sep_def)
  then have 2: "takeWhile (\<lambda>c. \<not> is_sep c) (type e @ Q @ T) = type e"
    "dropWhile (\<lambda>c. \<not> is_sep c) (type e @ Q @ T) = Q @ T"
    using takeWhile_token [of "type e" "\<lambda>c. \<not> is_sep c" "Q @ T"] c(2) by simp_all
  have 3: "trim_trailing (type e) = type e"
    using c(1,4) by (rule trim_trailing_id)
  have 4: "parse_params (Q @ T) (Num 1) = (T, quality e)"
    unfolding Q_def using assms by (intro parse_params_entry) (simp_all add: good_entry_def)
  have "skip_ws T = T"
    using assms(2) by (cases T) (auto simp: skip_ws_def isspace_def)
  then have 5: "(case skip_ws T of [] \<Rightarrow> skip_ws T
                 | c # r \<Rightarrow> if c = CHR '','' then r else skip_ws T) = drop 1 T"
    using assms(2) by (cases T) auto
  show ?thesis
    unfolding es parse_media_type_def Let_def 1 2 3 4 prod.case 5
    using c(1,5) by simp
qed

lemma parse_media_type_space: "parse_media_type (CHR '' '' # p) = parse_media_type p"
proof -
  have "skip_ws (CHR '' '' # p) = skip_ws p"
    by (simp add: skip_ws_def isspace_def)
  then show ?thesis
    by (simp add: parse_media_type_def)
qed

lemma parse_upto_more_entries:
  "\<forall>e\<in>set es. good_entry e \<Longrightarrow> length es \<le> n
     \<Longrightarrow> parse_upto n (drop 1 (more_entries es)) = es"
proof (induction es arbitrary: n)
  case Nil
  then show ?case
    by (cases n) (simp_all add: more_entries_def)
next
  case (Cons e es)
  then obtain k where n: "n = Suc k" and k: "length es \<le> k"
    by (cases n) auto
  have d: "drop 1 (more_entries (e # es)) = CHR '' '' # entry_string e @ more_entries es"
    by (simp add: more_entries_def)
  have ne: "drop 1 (more_entries (e # es)) \<noteq> []"
    unfolding d by simp
  have pm: "parse_media_type (drop 1 (more_entries (e # es)))
      = Some (drop 1 (more_entries es), type e, quality e)"
    unfolding d parse_media_type_space
    using Cons.prems(1) more_entries_head [of es] by (intro parse_media_type_entry) simp_all
  have "parse_upto (Suc k) (drop 1 (more_entries (e # es)))
      = \<lparr>type = type e, quality = quality e\<rparr> # parse_upto k (drop 1 (more_entries es))"
    by (simp only: parse_upto.simps ne pm if_False option.case prod.case)
  also have "parse_upto k (drop 1 (more_entries es)) = es"
    using Cons.IH [OF _ k] Cons.prems(1) by simp
  finally have r: "parse_upto (Suc k) (drop 1 (more_entries (e # es)))
      = \<lparr>type = type e, quality = quality e\<rparr> # es" .
  show ?case
    unfolding n r by simp
qed

lemma parse_upto_build:
  assumes "\<forall>e\<in>set es. good_entry e" and "length es \<le> n" and "es \<noteq> []"
  shows "parse_upto n (build_entries 0 es) = es"
proof -
  obtain e es' where es: "es = e # es'"
    using assms(3) by (cases es) auto
  obtain k where n: "n = Suc k" and k: "length es' \<le> k"
    using assms(2) es by (cases n) auto
  have ne: "entry_string e @ more_entries es' \<noteq> []"
    using assms(1) es by (simp add: entry_string_def good_entry_def clean_type_def)
  have pm: "parse_media_type (entry_string e @ more_entries es')
      = Some (drop 1 (more_entries es'), type e, quality e)"
    using assms(1) es more_entries_head [of es'] by (intro parse_media_type_entry) simp_all
  have "parse_upto (Suc k) (entry_string e @ more_entries es')
      = \<lparr>type = type e, quality = quality e\<rparr> # parse_upto k (drop 1 (more_entries es'))"
    by (simp only: parse_upto.simps ne pm if_False option.case prod.case)
  also have "parse_upto k (drop 1 (more_entries es')) = es'"
    using parse_upto_more_entries [of es' k] assms(1) k es by simp
  finally have r: "parse_upto (Suc k) (entry_string e @ more_entries es')
      = \<lparr>type = type e, quality = quality e\<rparr> # es'" .
  show ?thesis
    unfolding es n build_entries_first r by simp
qed

section \<open>Sorting\<close>

lemma strcmp_total: "strcmp a b \<le> 0 \<or> strcmp b a \<le> 0"
  by (induction a b rule: strcmp.induct) auto

lemma strcmp_trans: "strcmp a b \<le> 0 \<Longrightarrow> strcmp b c \<le> 0 \<Longrightarrow> strcmp a c \<le> 0"
proof (induction a b arbitrary: c rule: strcmp.induct)
  case 1
  then show ?case by simp
next
  case (2 b bs)
  then show ?case by (cases c) simp_all
next
  case (3 a as)
  then show ?case by simp
next
  case (4 a as b bs)
  show ?case
  proof (cases c)
    case Nil
    then show ?thesis using "4.prems" by simp
  next
    case (Cons x xs)
    then show ?thesis
      using "4.prems" "4.IH" [of xs] by (auto split: if_splits)
  qed
qed

lemma cmp_le_total:
  assumes "quality a \<noteq> NaN" and "quality b \<noteq> NaN"
  shows "cmp_le a b \<or> cmp_le b a"
  using assms strcmp_total [of "type a" "type b"]
  by (auto simp: cmp_le_def media_type_cmp_def dless_def)

lemma cmp_le_trans:
  assumes "quality a \<noteq> NaN" and "quality b \<noteq> NaN" and "quality c \<noteq> NaN"
    and "cmp_le a b" and "cmp_le b c"
  shows "cmp_le a c"
proof -
  have ab: "dord (quality b) < dord (quality a)
      \<or> (dord (quality a) = dord (quality b) \<and> strcmp (type a) (type b) \<le> 0)"
    using assms(1,2,4) by (auto simp: cmp_le_def media_type_cmp_def dless_def split: if_splits)
  have bc: "dord (quality c) < dord (quality b)
      \<or> (dord (quality b) = dord (quality c) \<and> strcmp (type b) (type c) \<le> 0)"
    using assms(2,3,5) by (auto simp: cmp_le_def media_type_cmp_def dless_def split: if_splits)
  have "dord (quality c) < dord (quality a)
      \<or> (dord (quality a) = dord (quality c) \<and> strcmp (type a) (type c) \<le> 0)"
    using ab bc strcmp_trans [of "type a" "type b" "type c"] by auto
  then show ?thesis
    using assms(1,3) by (auto simp: cmp_le_def media_type_cmp_def dless_def)
qed

lemma set_qsort_merge: "set (qsort_merge cmp xs ys) = set xs \<union> set ys"
  by (induction cmp xs ys rule: qsort_merge.induct) auto

lemma length_qsort_merge: "length (qsort_merge cmp xs ys) = length xs + length ys"
  by (induction cmp xs ys rule: qsort_merge.induct) auto

lemma set_qsort: "set (qsort cmp xs) = set xs"
proof (induction cmp xs rule: qsort.induct)
  case (1 cmp xs)
  show ?case
  proof (cases "length xs \<le> 1")
    case True
    then show ?thesis by (simp add: qsort.simps [of cmp xs])
  next
    case False
    have "set (take (length xs div 2) xs) \<union> set (drop (length xs div 2) xs) = set xs"
      by (metis append_take_drop_id set_append)
    then show ?thesis
      using False "1.IH" by (simp add: qsort.simps [of cmp xs] set_qsort_merge)
  qed
qed

lemma length_qsort: "length (qsort cmp xs) = length xs"
proof (induction cmp xs rule: qsort.induct)
  case (1 cmp xs)
  show ?case
  proof (cases "length xs \<le> 1")
    case True
    then show ?thesis by (simp add: qsort.simps [of cmp xs])
  next
    case False
    then show ?thesis
      using "1.IH" by (simp add: qsort.simps [of cmp xs] length_qsort_merge)
  qed
qed

lemma sorted_qsort_merge:
  assumes "\<forall>e\<in>set xs \<union> set ys. quality e \<noteq> NaN"
    and "sorted_wrt cmp_le xs" and "sorted_wrt cmp_le ys"
  shows "sorted_wrt cmp_le (qsort_merge media_type_cmp xs ys)"
  using assms
proof (induction media_type_cmp xs ys rule: qsort_merge.induct)
  case (1 ys)
  then show ?case by simp
next
  case (2 x xs)
  then show ?case by simp
next
  case (3 x xs y ys)
  show ?case
  proof (cases "media_type_cmp x y \<le> 0")
    case True
    then have xy: "cmp_le x y"
      by (simp add: cmp_le_def)
    have "\<forall>z\<in>set ys. cmp_le x z"
    proof
      fix z assume z: "z \<in> set ys"
      then have "cmp_le y z"
        using "3.prems"(3) by simp
      then show "cmp_le x z"
        using cmp_le_trans [of x y z] "3.prems"(1) z xy by simp
    qed
    then have "\<forall>z\<in>set (qsort_merge media_type_cmp xs (y # ys)). cmp_le x z"
      using xy "3.prems"(2) by (auto simp: set_qsort_merge)
    moreover have "sorted_wrt cmp_le (qsort_merge media_type_cmp xs (y # ys))"
      using True "3.prems" by (intro "3.hyps"(1)) simp_all
    ultimately show ?thesis
      using True by simp
  next
    case False
    then have yx: "cmp_le y x"
      using cmp_le_total [of x y] "3.prems"(1) by (simp add: cmp_le_def)
    have "\<forall>z\<in>set xs. cmp_le y z"
    proof
      fix z assume z: "z \<in> set xs"
      then have "cmp_le x z"
        using "3.prems"(2) by simp
      then show "cmp_le y z"
        using cmp_le_trans [of y x z] "3.prems"(1) z yx by simp
    qed
    then have "\<forall>z\<in>set (qsort_merge media_type_cmp (x # xs) ys). cmp_le y z"
      using yx "3.prems"(3) by (auto simp: set_qsort_merge)
    moreover have "sorted_wrt cmp_le (qsort_merge media_type_cmp (x # xs) ys)"
      using False "3.prems" by (intro "3.hyps"(2)) simp_all
    ultimately show ?thesis
      using False by simp
  qed
qed

lemma sorted_qsort:
  "\<forall>e\<in>set xs. quality e \<noteq> NaN \<Longrightarrow> sorted_wrt cmp_le (qsort media_type_cmp xs)"
proof (induction media_type_cmp xs rule: qsort.induct)
  case (1 xs)
  show ?case
  proof (cases "length xs \<le> 1")
    case True
    then have "xs = [] \<or> (\<exists>x. xs = [x])"
      by (cases xs) auto
    then show ?thesis
      using True by (auto simp: qsort.simps [of media_type_cmp xs])
  next
    case False
    let ?n = "length xs div 2"
    have t: "\<forall>e\<in>set (take ?n xs). quality e \<noteq> NaN"
      using "1.prems" by (auto dest: in_set_takeD)
    have d: "\<forall>e\<in>set (drop ?n xs). quality e \<noteq> NaN"
      using "1.prems" by (auto dest: in_set_dropD)
    have "sorted_wrt cmp_le (qsort_merge media_type_cmp
        (qsort media_type_cmp (take ?n xs)) (qsort media_type_cmp (drop ?n xs)))"
    proof (rule sorted_qsort_merge)
      show "\<forall>e\<in>set (qsort media_type_cmp (take ?n xs)) \<union> set (qsort media_type_cmp (drop ?n xs)).
          quality e \<noteq> NaN"
        using t d by (auto simp: set_qsort)
      show "sorted_wrt cmp_le (qsort media_type_cmp (take ?n xs))"
        by (rule "1.hyps"(1) [OF False t])
      show "sorted_wrt cmp_le (qsort media_type_cmp (drop ?n xs))"
        by (rule "1.hyps"(2) [OF False d])
    qed
    then show ?thesis
      using False by (simp add: qsort.simps [of media_type_cmp xs])
  qed
qed

lemma qsort_merge_sorted:
  "sorted_wrt cmp_le (xs @ ys) \<Longrightarrow> qsort_merge media_type_cmp xs ys = xs @ ys"
proof (induction media_type_cmp xs ys rule: qsort_merge.induct)
  case (1 ys)
  then show ?case by simp
next
  case (2 x xs)
  then show ?case by simp
next
  case (3 x xs y ys)
  then have le: "media_type_cmp x y \<le> 0"
    by (simp add: cmp_le_def sorted_wrt_append)
  have "sorted_wrt cmp_le (xs @ y # ys)"
    using "3.prems" by simp
  then have "qsort_merge media_type_cmp xs (y # ys) = xs @ y # ys"
    using le by (intro "3.hyps"(1))
  then show ?case
    using le by simp
qed

lemma qsort_sorted:
  "sorted_wrt cmp_le xs \<Longrightarrow> qsort media_type_cmp xs = xs"
proof (induction media_type_cmp xs rule: qsort.induct)
  case (1 xs)
  show ?case
  proof (cases "length xs \<le> 1")
    case True
    then show ?thesis by (simp add: qsort.simps [of media_type_cmp xs])
  next
    case False
    let ?n = "length xs div 2"
    have s: "sorted_wrt cmp_le (take ?n xs @ drop ?n xs)"
      using "1.prems" by simp
    then have "sorted_wrt cmp_le (take ?n xs)" "sorted_wrt cmp_le (drop ?n xs)"
      by (simp_all only: sorted_wrt_append)
    then have "qsort media_type_cmp (take ?n xs) = take ?n xs"
      "qsort media_type_cmp (drop ?n xs) = drop ?n xs"
      using "1.hyps" [OF False] by simp_all
    then have "qsort media_type_cmp xs = qsort_merge media_type_cmp (take ?n xs) (drop ?n xs)"
      using False by (simp add: qsort.simps [of media_type_cmp xs])
    also have "\<dots> = take ?n xs @ drop ?n xs"
      using s by (rule qsort_merge_sorted)
    finally show ?thesis by simp
  qed
qed

text \<open>With a NaN quality the result is the order the merge steps produce.\<close>

lemma sort_media_types_nan_order:
  "map type (sort_media_types
     [\<lparr>type = ''b'', quality = Num (1 / 2)\<rparr>, \<lparr>type = ''e'', quality = Num 1\<rparr>,
      \<lparr>type = ''a'', quality = Num 1\<rparr>, \<lparr>type = ''d'', quality = NaN\<rparr>])
   = [''a'', ''d'', ''e'', ''b'']"
  by code_simp

lemma sort_media_types_props:
  "set (sort_media_types st) = set st" "length (sort_media_types st) = length st"
  by (simp_all add: sort_media_types_def set_qsort length_qsort)

lemma sort_media_types_idem:
  assumes "\<forall>e\<in>set st. quality e \<noteq> NaN"
  shows "sort_media_types (sort_media_types st) = sort_media_types st"
proof (cases "1 < length st")
  case True
  then have "sort_media_types st = qsort media_type_cmp st"
    by (simp add: sort_media_types_def)
  moreover have "qsort media_type_cmp (qsort media_type_cmp st) = qsort media_type_cmp st"
    using sorted_qsort [OF assms] by (rule qsort_sorted)
  ultimately show ?thesis
    using True by (simp add: sort_media_types_def length_qsort)
next
  case False
  then show ?thesis
    by (simp add: sort_media_types_def)
qed

section \<open>Canonical form\<close>

lemma survives_format_not_nan: "survives_format q \<Longrightarrow> q \<noteq> NaN"
  by (auto simp: survives_format_def dless_def)

text \<open>The qualities written with one decimal place are given back by the format.\<close>

lemma one_decimal_survives:
  "list_all (\<lambda>s. survives_format (clamp_quality (fst (strtod s))))
     [''0'', ''0.0'', ''0.1'', ''0.2'', ''0.3'', ''0.4'', ''0.5'', ''0.6'', ''0.7'', ''0.8'', ''0.9'',
      ''1'', ''1.0'', ''-0.0'']"
  by code_simp

text \<open>
  Claim C2, as amended. \<open>canonicalize(canonicalize(h))\<close> equals \<open>canonicalize(h)\<close> for every
  header \<open>h\<close> whose parsed qualities are each given back by the output format: the quality
  is 1.0, or it is below 1.0 and equal to what \<open>strtod\<close> reads from its rendering with one
  digit after the point (as for a quality written with one decimal place). Here
  canonicalize parses, sorts by quality descending and then by type ascending, and writes
  \<open>;q=\<close> with one fraction digit only for a quality below 1.0.
\<close>

theorem canonicalize_idempotent:
  assumes "\<forall>e\<in>set (parse_accept_header header). survives_format (quality e)"
  shows "vmod_canonicalize (Some (vmod_canonicalize header)) = vmod_canonicalize header"
proof (cases "absent header")
  case True
  then show ?thesis
    by (simp add: vmod_canonicalize_def absent_def)
next
  case False
  define st where "st = sort_media_types (parse_accept_header header)"
  have c: "vmod_canonicalize header = build_accept_string st"
    using False by (simp add: vmod_canonicalize_def st_def)
  show ?thesis
  proof (cases "st = []")
    case True
    then have "vmod_canonicalize header = []"
      by (simp add: c build_accept_string_def)
    moreover have "vmod_canonicalize (Some []) = []"
      by (simp add: vmod_canonicalize_def absent_def)
    ultimately show ?thesis
      by simp
  next
    case ne: False
    have p: "e \<in> set (parse_accept_header header) \<Longrightarrow> clean_type (type e) \<and> clamped (quality e)" for e
      using parse_upto_good [of e MAX_MEDIA_TYPES]
      by (cases header) (simp_all add: parse_accept_header_upto)
    have good: "\<forall>e\<in>set st. good_entry e"
      using p assms by (simp add: st_def sort_media_types_props good_entry_def)
    have len: "length st \<le> MAX_MEDIA_TYPES"
      using length_parse_upto [of MAX_MEDIA_TYPES]
      by (cases header) (simp_all add: st_def sort_media_types_props parse_accept_header_upto)
    have b: "build_accept_string st = build_entries 0 st"
      using ne by (simp add: build_accept_string_def)
    have "build_entries 0 st \<noteq> []"
      using ne good by (cases st) (auto simp: good_entry_def clean_type_def)
    then have nabs: "\<not> absent (Some (build_entries 0 st))"
      by (simp add: absent_def)
    have "parse_accept_header (Some (build_entries 0 st)) = st"
      using parse_upto_build [OF good len ne] by (simp add: parse_accept_header_upto)
    moreover have "sort_media_types st = st"
      unfolding st_def using assms survives_format_not_nan
      by (intro sort_media_types_idem) blast
    ultimately have "vmod_canonicalize (Some (build_entries 0 st)) = build_accept_string st"
      using nabs by (simp add: vmod_canonicalize_def)
    then show ?thesis
      unfolding c b by simp
  qed
qed

theorem canonicalize_idempotent_witness:
  "vmod_canonicalize (Some (vmod_canonicalize
      (Some ''text/html;q=0.5, application/xhtml+xml;q=0.9, */*;q=0.5, text/plain'')))
   = vmod_canonicalize (Some ''text/html;q=0.5, application/xhtml+xml;q=0.9, */*;q=0.5, text/plain'')
   \<and> vmod_canonicalize (Some ''text/html;q=0.5, application/xhtml+xml;q=0.9, */*;q=0.5, text/plain'')
   = ''text/plain, application/xhtml+xml;q=0.9, */*;q=0.5, text/html;q=0.5''"
proof -
  have h: "\<forall>e\<in>set (parse_accept_header
      (Some ''text/html;q=0.5, application/xhtml+xml;q=0.9, */*;q=0.5, text/plain'')).
      survives_format (quality e)"
    by code_simp
  have "vmod_canonicalize (Some ''text/html;q=0.5, application/xhtml+xml;q=0.9, */*;q=0.5, text/plain'')
   = ''text/plain, application/xhtml+xml;q=0.9, */*;q=0.5, text/html;q=0.5''"
    by code_simp
  then show ?thesis
    using canonicalize_idempotent [OF h] by simp
qed

text \<open>
  Claim C2 as stated fails. The quality 0.99 is written as \<open>;q=1.0\<close>, which is read back
  as 1.0 and then written without a parameter; and the qualities 0.54 and 0.52 are both
  written as 0.5, after which the two entries are ordered by type.
\<close>

theorem canonicalize_not_idempotent_counterexample:
  "vmod_canonicalize (Some ''text/html;q=0.99'') = ''text/html;q=1.0''
   \<and> vmod_canonicalize (Some (vmod_canonicalize (Some ''text/html;q=0.99''))) = ''text/html''
   \<and> vmod_canonicalize (Some ''b/b;q=0.54, a/a;q=0.52'') = ''b/b;q=0.5, a/a;q=0.5''
   \<and> vmod_canonicalize (Some (vmod_canonicalize (Some ''b/b;q=0.54, a/a;q=0.52'')))
     = ''a/a;q=0.5, b/b;q=0.5''"
  by code_simp

end
